theory Spec2Isabelle
  imports Main "HOL-Library.Word"
begin

section \<open>The booking service of \<open>BookingService.cpp\<close>\<close>

text \<open>
  The development embeds the seat codec, the catalog operations and the reservation
  engine of the class \<open>booking::BookingService\<close>. Every public operation runs under the
  catalog lock or one show's lock, so an operation is modelled as one step from a service
  state to a service state; the interleaving of threads is not part of the model.

  C++ \<open>int\<close> is a 32-bit word wherever a claim depends on its width (the accumulator of the
  label parser). Identifiers and counters are unbounded integers: the counters only ever
  grow by one from zero.
\<close>

subsection \<open>Constants\<close>

type_synonym cint = "32 word"

definition SEAT_ROW :: char where
  "SEAT_ROW = CHR ''A''"

definition TOTAL_SEATS :: int where
  "TOTAL_SEATS = 20"

subsection \<open>Helpers\<close>

text \<open>\<open>std::tolower\<close> in the default locale: the letters \<open>A\<close> to \<open>Z\<close> move down by 32.\<close>

definition tolower :: "char \<Rightarrow> char" where
  "tolower c = (if (65::nat) \<le> of_char c \<and> of_char c \<le> (90::nat)
                then char_of (of_char c + (32::nat)) else c)"

definition toLower :: "string \<Rightarrow> string" where
  "toLower s = map tolower s"




subsection \<open>Seat codec\<close>

text \<open>The test \<open>c < '0' || c > '9'\<close> of the parser, negated.\<close>

definition is_digit :: "char \<Rightarrow> bool" where
  "is_digit c = (\<not> (of_char c < (48::nat) \<or> of_char c > (57::nat)))"

text \<open>The assignment \<open>num = num * 10 + (c - '0')\<close>, in 32-bit arithmetic.\<close>

definition accumulate :: "cint \<Rightarrow> char \<Rightarrow> cint" where
  "accumulate num c = num * 10 + (of_char c - 48)"

text \<open>
  The \<open>for\<close> loop of \<open>seatIndexFromLabel\<close> over the characters after the row letter:
  \<open>None\<close> is the \<open>return -1\<close> inside the loop, \<open>Some num\<close> the accumulator with which the
  loop is left, by \<open>break\<close> or at the end of the label.
\<close>

fun parseDigits :: "cint \<Rightarrow> string \<Rightarrow> cint option" where
  "parseDigits num [] = Some num"
| "parseDigits num (c # cs) =
     (if \<not> is_digit c then None
      else if sint (accumulate num c) > TOTAL_SEATS then Some (accumulate num c)
      else parseDigits (accumulate num c) cs)"

definition seatIndexFromLabel :: "string \<Rightarrow> int" where
  "seatIndexFromLabel label =
     (if length label < 2 \<or> hd label \<noteq> SEAT_ROW then - 1
      else case parseDigits 0 (tl label) of
             None \<Rightarrow> - 1
           | Some num \<Rightarrow>
               if sint num < 1 \<or> sint num > TOTAL_SEATS then - 1 else sint (num - 1))"

text \<open>
  The stream insertion \<open>os << n\<close> of an \<open>int\<close>: decimal digits, a sign when negative.
  The index of \<open>seatLabelFromIndex\<close> is an unbounded integer here; the sum \<open>idx + 1\<close>
  stays far from the limits of \<open>int\<close> for every seat index.
\<close>

fun formatNat :: "nat \<Rightarrow> string" where
  "formatNat n = (if n < 10 then [char_of (48 + n)]
                  else formatNat (n div 10) @ [char_of (48 + n mod 10)])"

definition formatInt :: "int \<Rightarrow> string" where
  "formatInt i = (if i < 0 then CHR ''-'' # formatNat (nat (- i)) else formatNat (nat i))"

definition seatLabelFromIndex :: "int \<Rightarrow> string" where
  "seatLabelFromIndex idx = SEAT_ROW # formatInt (idx + 1)"

text \<open>
  The label grammar in the specification's words: the fixed row prefix followed by one or
  more decimal digits encoding an integer in \<open>[1, TOTAL_SEATS]\<close>. The value of the digits
  is computed over the natural numbers, where nothing wraps.
\<close>

definition digit_step :: "nat \<Rightarrow> char \<Rightarrow> nat" where
  "digit_step n c = 10 * n + (of_char c - 48)"

definition decimal_value :: "string \<Rightarrow> nat" where
  "decimal_value ds = foldl digit_step 0 ds"

definition in_label_grammar :: "string \<Rightarrow> bool" where
  "in_label_grammar l =
     (case l of
        [] \<Rightarrow> False
      | r # ds \<Rightarrow> r = SEAT_ROW \<and> ds \<noteq> [] \<and> list_all is_digit ds
                 \<and> 1 \<le> decimal_value ds \<and> int (decimal_value ds) \<le> TOTAL_SEATS)"

subsection \<open>Data model\<close>

text \<open>
  The members of the class end in an underscore, which a constant's name cannot; they
  carry a prime instead (\<open>shows_\<close> is \<open>shows'\<close>). The field \<open>id\<close> of a movie or a theater
  is suffixed, since \<open>id\<close> is the identity function. The mutexes have no counterpart.
\<close>

record Movie =
  id_movie :: int
  title :: string

record Theater =
  id_theater :: int
  name :: string

record Show =
  movieId :: int
  theaterId :: int
  seats :: "bool list"
  availableCount :: int

record BookingService =
  movies' :: "int \<rightharpoonup> Movie"
  theaters' :: "int \<rightharpoonup> Theater"
  shows' :: "int \<rightharpoonup> Show"
  movieNameToId' :: "string \<rightharpoonup> int"
  theaterNameToId' :: "string \<rightharpoonup> int"
  showLookup' :: "int \<times> int \<rightharpoonup> int"
  activeMovies' :: "int set"
  movieToTheaters' :: "int \<rightharpoonup> int set"
  movieCounter' :: int
  theaterCounter' :: int
  showCounter' :: int

text \<open>The default-constructed service: empty containers, counters at zero.\<close>

definition initial :: BookingService where
  "initial = \<lparr> movies' = Map.empty, theaters' = Map.empty, shows' = Map.empty,
               movieNameToId' = Map.empty, theaterNameToId' = Map.empty,
               showLookup' = Map.empty, activeMovies' = {}, movieToTheaters' = Map.empty,
               movieCounter' = 0, theaterCounter' = 0, showCounter' = 0 \<rparr>"

text \<open>\<open>try_emplace\<close> and \<open>emplace\<close> of \<open>std::unordered_map\<close> keep an entry that is present.\<close>

definition emplace :: "('k \<rightharpoonup> 'v) \<Rightarrow> 'k \<Rightarrow> 'v \<Rightarrow> ('k \<rightharpoonup> 'v)" where
  "emplace m k v = (if m k = None then m(k \<mapsto> v) else m)"

subsection \<open>Movie and theater creation\<close>

text \<open>
  The duplicate branch writes the existing id to \<open>std::cerr\<close> and returns \<open>-1\<close>; the
  diagnostic stream is not part of the state.
\<close>

definition addMovie :: "string \<Rightarrow> BookingService \<Rightarrow> int \<times> BookingService" where
  "addMovie t s =
     (let lowerTitle = toLower t in
      if movieNameToId' s lowerTitle \<noteq> None then (- 1, s)
      else
        let i = movieCounter' s + 1;
            s1 = s\<lparr>movieCounter' := i\<rparr>;
            s2 = s1\<lparr>movies' := emplace (movies' s1) i \<lparr>id_movie = i, title = t\<rparr>\<rparr>
        in (i, s2\<lparr>movieNameToId' := (movieNameToId' s2)(lowerTitle \<mapsto> i)\<rparr>))"

definition addTheater :: "string \<Rightarrow> BookingService \<Rightarrow> int \<times> BookingService" where
  "addTheater n s =
     (let lowerName = toLower n in
      if theaterNameToId' s lowerName \<noteq> None then (- 1, s)
      else
        let i = theaterCounter' s + 1;
            s1 = s\<lparr>theaterCounter' := i\<rparr>;
            s2 = s1\<lparr>theaters' := emplace (theaters' s1) i \<lparr>id_theater = i, name = n\<rparr>\<rparr>
        in (i, s2\<lparr>theaterNameToId' := (theaterNameToId' s2)(lowerName \<mapsto> i)\<rparr>))"

subsection \<open>Show management\<close>

text \<open>
  \<open>movieToTheaters_[movieId].insert(theaterId)\<close> adds the theater to the set the movie
  has, and to a new empty set when the movie has no entry yet.
\<close>

definition newShow :: "int \<Rightarrow> int \<Rightarrow> Show" where
  "newShow m t = \<lparr> movieId = m, theaterId = t,
                   seats = replicate (nat TOTAL_SEATS) False,
                   availableCount = TOTAL_SEATS \<rparr>"

definition createShow :: "int \<Rightarrow> int \<Rightarrow> BookingService \<Rightarrow> int \<times> BookingService" where
  "createShow m t s =
     (if movies' s m = None then (- 1, s)
      else if theaters' s t = None then (- 1, s)
      else if showLookup' s (m, t) \<noteq> None then (- 1, s)
      else
        let i = showCounter' s + 1
        in (i, s\<lparr> showCounter' := i,
                  shows' := emplace (shows' s) i (newShow m t),
                  showLookup' := (showLookup' s)((m, t) \<mapsto> i),
                  activeMovies' := insert m (activeMovies' s),
                  movieToTheaters' :=
                    (movieToTheaters' s)
                      (m \<mapsto> insert t (case movieToTheaters' s m of
                                          None \<Rightarrow> {} | Some ts \<Rightarrow> ts)) \<rparr>))"

subsection \<open>Seat availability\<close>

text \<open>
  The exceptions of \<open>getAvailableSeats\<close>: \<open>std::invalid_argument\<close> with its message, thrown
  for an unknown show id, and \<open>std::length_error\<close>, which \<open>available.reserve\<close> throws when
  the cached count, converted to \<open>size_t\<close>, exceeds the vector's maximal size, as every
  negative count does.
\<close>

datatype error = InvalidArgument string | LengthError

text \<open>
  The loop \<open>for (int i = 0; i < TOTAL_SEATS; ++i)\<close> of \<open>getAvailableSeats\<close>, with the
  vector \<open>available\<close> as accumulator. The seat vector of a show has \<open>TOTAL_SEATS\<close>
  entries, so \<open>seats[i]\<close> is always in range.
\<close>

function availableLoop :: "bool list \<Rightarrow> int \<Rightarrow> string list \<Rightarrow> string list" where
  "availableLoop sts i available =
     (if i < TOTAL_SEATS
      then availableLoop sts (i + 1)
             (if \<not> sts ! nat i then available @ [seatLabelFromIndex i] else available)
      else available)"
  by pat_completeness auto
termination
  by (relation "measure (\<lambda>(sts, i, available). nat (TOTAL_SEATS - i))") auto

definition getAvailableSeats :: "int \<Rightarrow> BookingService \<Rightarrow> error + string list" where
  "getAvailableSeats showId s =
     (case shows' s showId of
        None \<Rightarrow> Inl (InvalidArgument ''Invalid show ID'')
      | Some sh \<Rightarrow>
          if availableCount sh < 0 then Inl LengthError
          else Inr (availableLoop (seats sh) 0 []))"

subsection \<open>Booking\<close>

text \<open>The three rejections of the validation loop, each with the label it logs.\<close>

datatype rejection = InvalidSeat string | DuplicateSeat string | SeatAlreadyBooked string

text \<open>
  The first loop of \<open>bookSeats\<close>: \<open>seen\<close> is the bitset, \<open>tmp\<close> the filled part of
  \<open>tmpIndices\<close>. It reads the seat vector and writes nothing to the show.
\<close>

fun checkLabels :: "bool list \<Rightarrow> bool list \<Rightarrow> int list \<Rightarrow> string list \<Rightarrow> rejection + int list" where
  "checkLabels sts seen tmp [] = Inr tmp"
| "checkLabels sts seen tmp (lbl # lbls) =
     (let idx = seatIndexFromLabel lbl in
      if idx < 0 then Inl (InvalidSeat lbl)
      else if seen ! nat idx then Inl (DuplicateSeat lbl)
      else if sts ! nat idx then Inl (SeatAlreadyBooked lbl)
      else checkLabels sts (seen[nat idx := True]) (tmp @ [idx]) lbls)"

text \<open>The second loop: one seat and one decrement of the cached count per index.\<close>

fun commitSeats :: "Show \<Rightarrow> int list \<Rightarrow> Show" where
  "commitSeats sh [] = sh"
| "commitSeats sh (idx # rest) =
     commitSeats (sh\<lparr> seats := (seats sh)[nat idx := True],
                       availableCount := availableCount sh - 1 \<rparr>) rest"

definition bookSeats :: "int \<Rightarrow> string list \<Rightarrow> BookingService \<Rightarrow> bool \<times> BookingService" where
  "bookSeats showId seatLabels s =
     (case shows' s showId of
        None \<Rightarrow> (False, s)
      | Some sh \<Rightarrow>
          (case checkLabels (seats sh) (replicate (nat TOTAL_SEATS) False) [] seatLabels of
             Inl r \<Rightarrow> (False, s)
           | Inr tmp \<Rightarrow> (True, s\<lparr>shows' := (shows' s)(showId \<mapsto> commitSeats sh tmp)\<rparr>)))"

subsection \<open>Sequences of calls\<close>

text \<open>
  A client's calls, one after the other, starting from a new service. The results of
  the calls are dropped; \<open>getAvailableSeats\<close> is a \<open>const\<close> member and leaves the state as
  it is, whether it returns or throws.
\<close>

datatype operation =
    AddMovie string
  | AddTheater string
  | CreateShow int int
  | BookSeats int "string list"
  | GetAvailableSeats int

fun perform :: "operation \<Rightarrow> BookingService \<Rightarrow> BookingService" where
  "perform (AddMovie t) s = snd (addMovie t s)"
| "perform (AddTheater n) s = snd (addTheater n s)"
| "perform (CreateShow m t) s = snd (createShow m t s)"
| "perform (BookSeats i ls) s = snd (bookSeats i ls s)"
| "perform (GetAvailableSeats i) s = s"

fun run :: "operation list \<Rightarrow> BookingService \<Rightarrow> BookingService" where
  "run [] s = s"
| "run (x # xs) s = run xs (perform x s)"

subsection \<open>Invariants\<close>

text \<open>The number of \<open>false\<close> entries of a seat vector.\<close>

definition freeCount :: "bool list \<Rightarrow> int" where
  "freeCount sts = int (length (filter (\<lambda>b. \<not> b) sts))"

definition show_inv :: "Show \<Rightarrow> bool" where
  "show_inv sh = (length (seats sh) = nat TOTAL_SEATS \<and> availableCount sh = freeCount (seats sh))"

text \<open>
  What every service state built by calls satisfies: the show counter is at least every
  show id handed out, every show keeps the seat-count invariant, and the pair index
  covers every show.
\<close>

definition service_inv :: "BookingService \<Rightarrow> bool" where
  "service_inv s =
     (0 \<le> showCounter' s
      \<and> (\<forall>i sh. shows' s i = Some sh \<longrightarrow>
             i \<le> showCounter' s \<and> show_inv sh
             \<and> showLookup' s (movieId sh, theaterId sh) \<noteq> None))"



text \<open>
  The example of the specification: one movie and one theater (\<open>catalog\<close>), then one
  show for them (\<open>demo\<close>).
\<close>

definition catalog :: BookingService where
  "catalog = run [AddMovie ''Inception'', AddTheater ''Cineplex''] initial"

definition demo :: BookingService where
  "demo = run [AddMovie ''Inception'', AddTheater ''Cineplex'', CreateShow 1 1] initial"

text \<open>The same movie with a show in a first theater, and a second theater without one.\<close>

definition multiplex :: BookingService where
  "multiplex = run [AddMovie ''Inception'', AddTheater ''Cineplex'', AddTheater ''IMAX'',
                    CreateShow 1 1] initial"

section \<open>The seat codec\<close>

lemma sint_word_of_int_small:
  "- (2 ^ 31) \<le> k \<Longrightarrow> k < 2 ^ 31 \<Longrightarrow> sint (word_of_int k :: cint) = k"
  by (simp add: sint_sbintrunc' signed_take_bit_int_eq_self)

lemma accumulate_exact:
  assumes "0 \<le> sint num" "sint num \<le> 20" "is_digit c"
  shows "sint (accumulate num c) = 10 * sint num + (int (of_char c) - 48)"
proof -
  let ?d = "int (of_char c) - 48"
  have d: "0 \<le> ?d" "?d \<le> 9" using assms(3) by (auto simp: is_digit_def)
  have "(of_char c :: cint) = word_of_int (int (of_char c))"
    by (simp only: of_nat_of_char of_int_of_char)
  then have "accumulate num c = word_of_int (10 * sint num + ?d)"
    by (simp add: accumulate_def mult.commute)
  moreover have "sint (word_of_int (10 * sint num + ?d) :: cint) = 10 * sint num + ?d"
    using assms(1,2) d by (intro sint_word_of_int_small) auto
  ultimately show ?thesis by simp
qed

lemma accumulate_digit_step:
  assumes "sint num = int n" "n \<le> 20" "is_digit c"
  shows "sint (accumulate num c) = int (digit_step n c)"
  using accumulate_exact [of num c] assms
  by (auto simp: digit_step_def is_digit_def)

lemma foldl_digit_step_ge: "n \<le> foldl digit_step n cs"
proof (induction cs arbitrary: n)
  case Nil show ?case by simp
next
  case (Cons c cs)
  have "n \<le> digit_step n c" by (simp add: digit_step_def)
  also have "\<dots> \<le> foldl digit_step (digit_step n c) cs" by (rule Cons.IH)
  finally show ?case by simp
qed

lemma parseDigits_accepts:
  assumes "sint num = int n" "list_all is_digit cs" "foldl digit_step n cs \<le> 20"
  shows "\<exists>w. parseDigits num cs = Some w \<and> sint w = int (foldl digit_step n cs)"
  using assms
proof (induction cs arbitrary: num n)
  case Nil then show ?case by simp
next
  case (Cons c cs)
  have le: "digit_step n c \<le> 20"
    using foldl_digit_step_ge [of "digit_step n c" cs] Cons.prems(3) by simp
  have "n \<le> digit_step n c" by (simp add: digit_step_def)
  with le have n: "n \<le> 20" by simp
  have dig: "is_digit c" using Cons.prems(2) by simp
  have acc: "sint (accumulate num c) = int (digit_step n c)"
    by (rule accumulate_digit_step [OF Cons.prems(1) n dig])
  have "\<exists>w. parseDigits (accumulate num c) cs = Some w
          \<and> sint w = int (foldl digit_step (digit_step n c) cs)"
    using Cons.prems by (intro Cons.IH [OF acc]) simp_all
  with acc le dig show ?case by (simp add: TOTAL_SEATS_def)
qed

lemma parseDigits_rejects:
  assumes "sint num = int n" "n \<le> 20"
    and "\<not> (list_all is_digit cs \<and> foldl digit_step n cs \<le> 20)"
  shows "parseDigits num cs = None \<or> (\<exists>w. parseDigits num cs = Some w \<and> 20 < sint w)"
  using assms
proof (induction cs arbitrary: num n)
  case Nil then show ?case by simp
next
  case (Cons c cs)
  show ?case
  proof (cases "is_digit c")
    case False then show ?thesis by simp
  next
    case True
    have acc: "sint (accumulate num c) = int (digit_step n c)"
      by (rule accumulate_digit_step [OF Cons.prems(1,2) True])
    show ?thesis
    proof (cases "digit_step n c \<le> 20")
      case False
      with acc True show ?thesis by (simp add: TOTAL_SEATS_def)
    next
      case le: True
      have "\<not> (list_all is_digit cs \<and> foldl digit_step (digit_step n c) cs \<le> 20)"
        using Cons.prems(3) True by simp
      from Cons.IH [OF acc le this] acc le True show ?thesis
        by (simp add: TOTAL_SEATS_def)
    qed
  qed
qed

lemma parseDigits_bounded:
  assumes "sint num = int n" "n \<le> 20" "parseDigits num cs = Some w"
  shows "0 \<le> sint w \<and> sint w \<le> 209"
  using assms
proof (induction cs arbitrary: num n)
  case Nil then show ?case by simp
next
  case (Cons c cs)
  from Cons.prems(3) have dig: "is_digit c" by (simp split: if_splits)
  have acc: "sint (accumulate num c) = int (digit_step n c)"
    by (rule accumulate_digit_step [OF Cons.prems(1,2) dig])
  have up: "digit_step n c \<le> 209"
    using Cons.prems(2) dig by (auto simp: digit_step_def is_digit_def)
  show ?case
  proof (cases "digit_step n c \<le> 20")
    case True
    with Cons.prems(3) dig acc have "parseDigits (accumulate num c) cs = Some w"
      by (simp add: TOTAL_SEATS_def)
    from Cons.IH [OF acc True this] show ?thesis .
  next
    case False
    with Cons.prems(3) dig acc have "w = accumulate num c"
      by (simp add: TOTAL_SEATS_def)
    with acc up show ?thesis by simp
  qed
qed

lemma decimal_value_foldl: "decimal_value ds = foldl digit_step 0 ds"
  by (simp add: decimal_value_def)

lemma seatIndexFromLabel_grammar:
  "seatIndexFromLabel l =
     (if in_label_grammar l then int (decimal_value (tl l)) - 1 else -1)"
proof (cases l)
  case Nil
  then show ?thesis by (simp add: seatIndexFromLabel_def in_label_grammar_def)
next
  case (Cons r ds)
  show ?thesis
  proof (cases "r = SEAT_ROW \<and> ds \<noteq> []")
    case False
    with Cons show ?thesis
      by (cases ds) (auto simp: seatIndexFromLabel_def in_label_grammar_def)
  next
    case True
    then have guard: "\<not> (length l < 2 \<or> hd l \<noteq> SEAT_ROW)"
      using Cons by (cases ds) auto
    have z: "sint (0 :: cint) = int 0" by simp
    show ?thesis
    proof (cases "list_all is_digit ds \<and> decimal_value ds \<le> 20")
      case ok: True
      then obtain w where w: "parseDigits 0 ds = Some w" "sint w = int (decimal_value ds)"
        using parseDigits_accepts [OF z, of ds] by (auto simp: decimal_value_foldl)
      show ?thesis
      proof (cases "1 \<le> decimal_value ds")
        case True
        have "sint (w - 1) = sint w - 1"
        proof -
          have "w - 1 = word_of_int (sint w - 1)" by simp
          moreover have "sint (word_of_int (sint w - 1) :: cint) = sint w - 1"
            using w(2) ok True by (intro sint_word_of_int_small) auto
          ultimately show ?thesis by simp
        qed
        with w ok True guard Cons show ?thesis
          by (simp add: seatIndexFromLabel_def in_label_grammar_def TOTAL_SEATS_def)
      next
        case False
        with w ok guard Cons True show ?thesis
          by (simp add: seatIndexFromLabel_def in_label_grammar_def TOTAL_SEATS_def)
      qed
    next
      case bad: False
      then have "\<not> (list_all is_digit ds \<and> foldl digit_step 0 ds \<le> 20)"
        by (simp add: decimal_value_foldl)
      from parseDigits_rejects [OF z _ this]
      have "parseDigits 0 ds = None \<or> (\<exists>w. parseDigits 0 ds = Some w \<and> 20 < sint w)"
        by simp
      with bad guard Cons show ?thesis
        by (auto simp: seatIndexFromLabel_def in_label_grammar_def TOTAL_SEATS_def)
    qed
  qed
qed


lemma all_indices_round_trip:
  "\<forall>j \<in> set [0..19]. seatIndexFromLabel (seatLabelFromIndex j) = j"
  by code_simp

text \<open>
  Claim C4. For every seat index \<open>i\<close> with \<open>0 \<le> i < TOTAL_SEATS\<close>, decoding the label
  produced for \<open>i\<close> gives \<open>i\<close> back.
\<close>

theorem seat_label_round_trip:
  "0 \<le> i \<Longrightarrow> i < TOTAL_SEATS \<Longrightarrow> seatIndexFromLabel (seatLabelFromIndex i) = i"
proof -
  assume "0 \<le> i" "i < TOTAL_SEATS"
  then have "i \<in> set [0..19]" by (simp add: TOTAL_SEATS_def)
  moreover have "\<forall>j \<in> set [0..19]. seatIndexFromLabel (seatLabelFromIndex j) = j"
    by (rule all_indices_round_trip)
  ultimately show ?thesis by blast
qed

theorem seat_label_round_trip_witness:
  "(0::int) \<le> 19 \<and> 19 < TOTAL_SEATS \<and> seatLabelFromIndex 19 = ''A20''
   \<and> seatIndexFromLabel (seatLabelFromIndex 19) = 19"
proof -
  have h: "(0::int) \<le> 19" "19 < TOTAL_SEATS" by (simp_all add: TOTAL_SEATS_def)
  have "seatLabelFromIndex 19 = ''A20''" by code_simp
  with h seat_label_round_trip [OF h] show ?thesis by simp
qed

text \<open>
  Claim C5. A string outside the label grammar (wrong row letter, empty suffix, a
  non-digit in the suffix, a number outside \<open>[1, TOTAL_SEATS]\<close>) decodes to the sentinel
  \<open>-1\<close>; the function is total, so nothing is raised. The loop is left as soon as the
  accumulator exceeds \<open>TOTAL_SEATS\<close>, whatever follows in the label; the accumulator
  with which the loop is left lies in \<open>[0, 209]\<close>, for every label and hence for every
  prefix of it; and each accumulation from a value in \<open>[0, TOTAL_SEATS]\<close> is exact in
  32 bits, so the accumulator never wraps.
\<close>

theorem seatIndexFromLabel_sentinel_and_bounded:
  "(\<not> in_label_grammar l \<longrightarrow> seatIndexFromLabel l = - 1)
   \<and> (is_digit c \<and> TOTAL_SEATS < sint (accumulate num c)
        \<longrightarrow> parseDigits num (c # rest) = Some (accumulate num c))
   \<and> (parseDigits 0 cs = Some w \<longrightarrow> 0 \<le> sint w \<and> sint w \<le> 209)
   \<and> (0 \<le> sint k \<and> sint k \<le> TOTAL_SEATS \<and> is_digit d
        \<longrightarrow> sint (accumulate k d) = 10 * sint k + (int (of_char d) - 48))"
proof (intro conjI impI)
  assume "\<not> in_label_grammar l"
  then show "seatIndexFromLabel l = - 1" by (simp add: seatIndexFromLabel_grammar)
next
  assume "is_digit c \<and> TOTAL_SEATS < sint (accumulate num c)"
  then show "parseDigits num (c # rest) = Some (accumulate num c)" by simp
next
  assume p: "parseDigits 0 cs = Some w"
  have z: "sint (0 :: cint) = int 0" by simp
  from parseDigits_bounded [OF z _ p] show "0 \<le> sint w" by simp
  from parseDigits_bounded [OF z _ p] show "sint w \<le> 209" by simp
next
  assume "0 \<le> sint k \<and> sint k \<le> TOTAL_SEATS \<and> is_digit d"
  then show "sint (accumulate k d) = 10 * sint k + (int (of_char d) - 48)"
    by (intro accumulate_exact) (simp_all add: TOTAL_SEATS_def)
qed

theorem seatIndexFromLabel_sentinel_and_bounded_witness:
  "\<not> in_label_grammar ''A4294967297'' \<and> seatIndexFromLabel ''A4294967297'' = - 1
   \<and> is_digit (CHR ''9'') \<and> TOTAL_SEATS < sint (accumulate 2 (CHR ''9''))
   \<and> parseDigits 2 (CHR ''9'' # ''x7'') = Some 29
   \<and> parseDigits 0 ''29'' = Some 29 \<and> sint (29 :: cint) \<le> 209
   \<and> 0 \<le> sint (20 :: cint) \<and> sint (20 :: cint) \<le> TOTAL_SEATS
   \<and> sint (accumulate 20 (CHR ''9'')) = 209"
proof -
  have h1: "\<not> in_label_grammar ''A4294967297''"
    by (simp add: in_label_grammar_def decimal_value_def digit_step_def SEAT_ROW_def
        is_digit_def TOTAL_SEATS_def)
  have h2: "is_digit (CHR ''9'') \<and> TOTAL_SEATS < sint (accumulate 2 (CHR ''9''))"
    by code_simp
  have h3: "parseDigits 0 ''29'' = Some 29" by code_simp
  have h4: "0 \<le> sint (20 :: cint) \<and> sint (20 :: cint) \<le> TOTAL_SEATS \<and> is_digit (CHR ''9'')"
    by code_simp
  have a: "accumulate 2 (CHR ''9'') = 29" by code_simp
  note t = seatIndexFromLabel_sentinel_and_bounded
    [where l = "''A4294967297''" and c = "CHR ''9''" and num = 2 and rest = "''x7''"
       and cs = "''29''" and w = 29 and k = 20 and d = "CHR ''9''"]
  from t h1 have c1: "seatIndexFromLabel ''A4294967297'' = - 1" by blast
  from t h2 have c2: "parseDigits 2 (CHR ''9'' # ''x7'') = Some (accumulate 2 (CHR ''9''))"
    by blast
  from t h3 have c3: "sint (29 :: cint) \<le> 209" by blast
  from t h4 have c4: "sint (accumulate 20 (CHR ''9'')) = 10 * sint (20 :: cint) + (int (of_char (CHR ''9'')) - 48)"
    by blast
  from c4 have c4': "sint (accumulate 20 (CHR ''9'')) = 209" by simp
  from h1 c1 h2 c2 a h3 c3 h4 c4' show ?thesis by simp
qed

section \<open>The reservation engine\<close>

lemma seatIndexFromLabel_range:
  "- 1 \<le> seatIndexFromLabel l \<and> seatIndexFromLabel l < TOTAL_SEATS"
  by (cases l) (auto simp: seatIndexFromLabel_grammar in_label_grammar_def TOTAL_SEATS_def)

lemma seatIndexFromLabel_nat_less:
  "nat (seatIndexFromLabel l) < nat TOTAL_SEATS"
  using seatIndexFromLabel_range [of l] unfolding TOTAL_SEATS_def by linarith

lemma checkLabels_Inr_iff:
  assumes "length seen = nat TOTAL_SEATS"
  shows "checkLabels sts seen tmp ls = Inr r \<longleftrightarrow>
           (\<forall>l \<in> set ls. 0 \<le> seatIndexFromLabel l
                \<and> \<not> seen ! nat (seatIndexFromLabel l)
                \<and> \<not> sts ! nat (seatIndexFromLabel l))
           \<and> distinct (map seatIndexFromLabel ls)
           \<and> r = tmp @ map seatIndexFromLabel ls"
  using assms
proof (induction ls arbitrary: seen tmp)
  case Nil
  show ?case by auto
next
  case (Cons l ls)
  let ?idx = "seatIndexFromLabel l"
  show ?case
  proof (cases "0 \<le> ?idx \<and> \<not> seen ! nat ?idx \<and> \<not> sts ! nat ?idx")
    case False
    then show ?thesis by (auto simp: Let_def)
  next
    case True
    have len: "length (seen[nat ?idx := True]) = nat TOTAL_SEATS"
      using Cons.prems by simp
    have in_range: "nat ?idx < length seen"
      using seatIndexFromLabel_nat_less [of l] Cons.prems by simp
    have upd: "(\<not> seen[nat ?idx := True] ! nat (seatIndexFromLabel l'))
                 = (seatIndexFromLabel l' \<noteq> ?idx \<and> \<not> seen ! nat (seatIndexFromLabel l'))"
      if "0 \<le> seatIndexFromLabel l'" for l'
    proof -
      have "(nat ?idx = nat (seatIndexFromLabel l')) = (?idx = seatIndexFromLabel l')"
        using True that by (simp add: eq_nat_nat_iff)
      then show ?thesis using in_range True by (auto simp: nth_list_update)
    qed
    have "checkLabels sts seen tmp (l # ls) = Inr r
            \<longleftrightarrow> checkLabels sts (seen[nat ?idx := True]) (tmp @ [?idx]) ls = Inr r"
      using True by (simp add: Let_def)
    also have "\<dots> \<longleftrightarrow>
           (\<forall>l' \<in> set ls. 0 \<le> seatIndexFromLabel l'
                \<and> \<not> seen[nat ?idx := True] ! nat (seatIndexFromLabel l')
                \<and> \<not> sts ! nat (seatIndexFromLabel l'))
           \<and> distinct (map seatIndexFromLabel ls)
           \<and> r = (tmp @ [?idx]) @ map seatIndexFromLabel ls"
      by (rule Cons.IH [OF len])
    also have "\<dots> \<longleftrightarrow>
           (\<forall>l' \<in> set (l # ls). 0 \<le> seatIndexFromLabel l'
                \<and> \<not> seen ! nat (seatIndexFromLabel l')
                \<and> \<not> sts ! nat (seatIndexFromLabel l'))
           \<and> distinct (map seatIndexFromLabel (l # ls))
           \<and> r = tmp @ map seatIndexFromLabel (l # ls)"
    proof -
      have pt: "(0 \<le> seatIndexFromLabel l'
                  \<and> \<not> seen[nat ?idx := True] ! nat (seatIndexFromLabel l')
                  \<and> \<not> sts ! nat (seatIndexFromLabel l'))
              = ((0 \<le> seatIndexFromLabel l'
                  \<and> \<not> seen ! nat (seatIndexFromLabel l')
                  \<and> \<not> sts ! nat (seatIndexFromLabel l'))
                 \<and> seatIndexFromLabel l' \<noteq> ?idx)" for l'
        using upd [of l'] by blast
      show ?thesis
        unfolding pt using True by (auto simp: image_iff)
    qed
    finally show ?thesis .
  qed
qed

lemma nth_replicate_seen:
  "\<not> replicate (nat TOTAL_SEATS) False ! nat (seatIndexFromLabel l)"
  using seatIndexFromLabel_nat_less [of l] by simp

lemma checkLabels_fresh_iff:
  "checkLabels sts (replicate (nat TOTAL_SEATS) False) [] ls = Inr r \<longleftrightarrow>
     (\<forall>l \<in> set ls. 0 \<le> seatIndexFromLabel l \<and> \<not> sts ! nat (seatIndexFromLabel l))
     \<and> distinct (map seatIndexFromLabel ls)
     \<and> r = map seatIndexFromLabel ls"
  by (subst checkLabels_Inr_iff) (simp_all add: nth_replicate_seen)

lemma checkLabels_reason:
  assumes "\<forall>l \<in> set ls. 0 \<le> seatIndexFromLabel l \<and> \<not> sts ! nat (seatIndexFromLabel l)"
  shows "(\<exists>r. checkLabels sts seen tmp ls = Inr r)
          \<or> (\<exists>l \<in> set ls. checkLabels sts seen tmp ls = Inl (DuplicateSeat l))"
  using assms
proof (induction ls arbitrary: seen tmp)
  case Nil
  show ?case by simp
next
  case (Cons l ls)
  from Cons.prems have rest: "\<forall>l \<in> set ls. 0 \<le> seatIndexFromLabel l \<and> \<not> sts ! nat (seatIndexFromLabel l)"
    by simp
  from Cons.IH [OF rest, of "seen[nat (seatIndexFromLabel l) := True]" "tmp @ [seatIndexFromLabel l]"]
    Cons.prems
  show ?case by (auto simp: Let_def)
qed

text \<open>
  The array \<open>tmpIndices\<close> has \<open>TOTAL_SEATS\<close> cells. The indices collected from any
  request, and so from any prefix of one, are at most that many: the write
  \<open>tmpIndices[n++]\<close> stays inside the array.
\<close>

lemma checkLabels_tmp_bound:
  assumes "checkLabels sts (replicate (nat TOTAL_SEATS) False) [] ls = Inr tmp"
  shows "int (length tmp) \<le> TOTAL_SEATS"
proof -
  from assms have tmp: "tmp = map seatIndexFromLabel ls"
    and d: "distinct (map seatIndexFromLabel ls)"
    and ok: "\<forall>l \<in> set ls. 0 \<le> seatIndexFromLabel l"
    by (simp_all add: checkLabels_fresh_iff)
  have "set tmp \<subseteq> {0..<TOTAL_SEATS}"
    using ok seatIndexFromLabel_range by (auto simp: tmp)
  then have "card (set tmp) \<le> card {0..<TOTAL_SEATS}"
    by (intro card_mono) simp_all
  moreover have "card (set tmp) = length tmp"
    using d unfolding tmp by (rule distinct_card)
  ultimately show ?thesis by (simp add: TOTAL_SEATS_def)
qed

lemma freeCount_update:
  "i < length sts \<Longrightarrow> \<not> sts ! i \<Longrightarrow> freeCount (sts[i := True]) = freeCount sts - 1"
proof (induction sts arbitrary: i)
  case Nil
  then show ?case by simp
next
  case (Cons b sts)
  show ?case
  proof (cases i)
    case 0
    with Cons.prems show ?thesis by (simp add: freeCount_def)
  next
    case (Suc k)
    with Cons.prems have "freeCount (sts[k := True]) = freeCount sts - 1"
      by (intro Cons.IH) simp_all
    with Suc show ?thesis by (simp add: freeCount_def)
  qed
qed

lemma commitSeats_fields:
  "movieId (commitSeats sh idxs) = movieId sh
   \<and> theaterId (commitSeats sh idxs) = theaterId sh
   \<and> availableCount (commitSeats sh idxs) = availableCount sh - int (length idxs)
   \<and> length (seats (commitSeats sh idxs)) = length (seats sh)"
  by (induction idxs arbitrary: sh) auto

lemma commitSeats_nth:
  assumes "j < length (seats sh)" "\<forall>i \<in> set idxs. 0 \<le> i"
  shows "seats (commitSeats sh idxs) ! j = (seats sh ! j \<or> int j \<in> set idxs)"
  using assms
proof (induction idxs arbitrary: sh)
  case Nil
  show ?case by simp
next
  case (Cons i idxs)
  let ?sh = "sh\<lparr> seats := (seats sh)[nat i := True], availableCount := availableCount sh - 1 \<rparr>"
  have "seats (commitSeats ?sh idxs) ! j = (seats ?sh ! j \<or> int j \<in> set idxs)"
    using Cons.prems by (intro Cons.IH) simp_all
  moreover have "seats ?sh ! j = (seats sh ! j \<or> int j = i)"
  proof (cases "nat i = j")
    case True
    with Cons.prems show ?thesis by auto
  next
    case False
    with Cons.prems have "int j \<noteq> i" by auto
    with False show ?thesis by simp
  qed
  ultimately show ?case by auto
qed

lemma commitSeats_freeCount:
  assumes "distinct idxs"
    and "\<forall>i \<in> set idxs. 0 \<le> i \<and> nat i < length (seats sh) \<and> \<not> seats sh ! nat i"
  shows "freeCount (seats (commitSeats sh idxs)) = freeCount (seats sh) - int (length idxs)"
  using assms
proof (induction idxs arbitrary: sh)
  case Nil
  show ?case by simp
next
  case (Cons i idxs)
  let ?sh = "sh\<lparr> seats := (seats sh)[nat i := True], availableCount := availableCount sh - 1 \<rparr>"
  have one: "freeCount (seats ?sh) = freeCount (seats sh) - 1"
    using Cons.prems(2) by (simp add: freeCount_update)
  have ne: "nat i \<noteq> nat k" if "k \<in> set idxs" for k
  proof -
    from that Cons.prems have "0 \<le> k" "0 \<le> i" "i \<noteq> k" by auto
    then show ?thesis by (simp add: eq_nat_nat_iff)
  qed
  have "\<forall>k \<in> set idxs. 0 \<le> k \<and> nat k < length (seats ?sh) \<and> \<not> seats ?sh ! nat k"
    using Cons.prems ne by simp
  with Cons.prems(1)
  have "freeCount (seats (commitSeats ?sh idxs)) = freeCount (seats ?sh) - int (length idxs)"
    by (intro Cons.IH) simp_all
  with one show ?case by simp
qed

section \<open>Availability and the invariants of the service\<close>

lemma availableLoop_eq:
  "0 \<le> i \<Longrightarrow>
   availableLoop sts i available =
     available @ map seatLabelFromIndex (filter (\<lambda>j. \<not> sts ! nat j) [i..TOTAL_SEATS - 1])"
proof (induction sts i available rule: availableLoop.induct)
  case (1 sts i available)
  show ?case
  proof (cases "i < TOTAL_SEATS")
    case True
    have upto: "[i..TOTAL_SEATS - 1] = i # [i + 1..TOTAL_SEATS - 1]"
      using True by (simp add: upto_rec1)
    have "availableLoop sts i available =
            availableLoop sts (i + 1)
              (if \<not> sts ! nat i then available @ [seatLabelFromIndex i] else available)"
      using True by (subst availableLoop.simps) simp
    also have "\<dots> = (if \<not> sts ! nat i then available @ [seatLabelFromIndex i] else available)
          @ map seatLabelFromIndex (filter (\<lambda>j. \<not> sts ! nat j) [i + 1..TOTAL_SEATS - 1])"
      using True "1.prems" by (intro "1.IH") simp_all
    also have "\<dots> = available
          @ map seatLabelFromIndex (filter (\<lambda>j. \<not> sts ! nat j) [i..TOTAL_SEATS - 1])"
      unfolding upto by simp
    finally show ?thesis .
  next
    case False
    then have "[i..TOTAL_SEATS - 1] = []" by simp
    with False show ?thesis by (subst availableLoop.simps) simp
  qed
qed

lemma getAvailableSeats_eq:
  "shows' s i = Some sh \<Longrightarrow> 0 \<le> availableCount sh \<Longrightarrow>
   getAvailableSeats i s =
     Inr (map seatLabelFromIndex (filter (\<lambda>j. \<not> seats sh ! nat j) [0..TOTAL_SEATS - 1]))"
proof -
  assume sh: "shows' s i = Some sh" and cnt: "0 \<le> availableCount sh"
  have "availableLoop (seats sh) 0 [] =
          [] @ map seatLabelFromIndex (filter (\<lambda>j. \<not> seats sh ! nat j) [0..TOTAL_SEATS - 1])"
    by (rule availableLoop_eq) simp
  with cnt show ?thesis
    unfolding getAvailableSeats_def sh by simp
qed

lemma show_inv_newShow: "show_inv (newShow m t)"
  by (simp add: show_inv_def newShow_def freeCount_def TOTAL_SEATS_def)

lemma show_inv_commitSeats:
  assumes "show_inv sh"
    and "checkLabels (seats sh) (replicate (nat TOTAL_SEATS) False) [] ls = Inr tmp"
  shows "show_inv (commitSeats sh tmp)"
proof -
  from assms(2) have tmp: "tmp = map seatIndexFromLabel ls"
    and d: "distinct (map seatIndexFromLabel ls)"
    and ok: "\<forall>l \<in> set ls. 0 \<le> seatIndexFromLabel l \<and> \<not> seats sh ! nat (seatIndexFromLabel l)"
    by (simp_all add: checkLabels_fresh_iff)
  from assms(1) have len: "length (seats sh) = nat TOTAL_SEATS"
    and cnt: "availableCount sh = freeCount (seats sh)"
    by (simp_all add: show_inv_def)
  have "\<forall>i \<in> set tmp. 0 \<le> i \<and> nat i < length (seats sh) \<and> \<not> seats sh ! nat i"
    using ok len seatIndexFromLabel_nat_less by (auto simp: tmp)
  with d have "freeCount (seats (commitSeats sh tmp)) = freeCount (seats sh) - int (length tmp)"
    unfolding tmp by (intro commitSeats_freeCount)
  with len cnt show ?thesis
    by (simp add: show_inv_def commitSeats_fields)
qed

lemma service_inv_initial: "service_inv initial"
  by (simp add: service_inv_def initial_def)

lemma service_inv_addMovie: "service_inv s \<Longrightarrow> service_inv (snd (addMovie t s))"
  by (simp add: service_inv_def addMovie_def Let_def)

lemma service_inv_addTheater: "service_inv s \<Longrightarrow> service_inv (snd (addTheater n s))"
  by (simp add: service_inv_def addTheater_def Let_def)

lemma service_inv_showD:
  assumes "service_inv s" "shows' s j = Some sh"
  shows "j \<le> showCounter' s" "show_inv sh"
    "showLookup' s (movieId sh, theaterId sh) \<noteq> None"
proof -
  from assms(1) have "\<forall>i sh. shows' s i = Some sh \<longrightarrow>
      i \<le> showCounter' s \<and> show_inv sh
      \<and> showLookup' s (movieId sh, theaterId sh) \<noteq> None"
    unfolding service_inv_def by (rule conjunct2)
  with assms(2) have "j \<le> showCounter' s \<and> show_inv sh
      \<and> showLookup' s (movieId sh, theaterId sh) \<noteq> None"
    by blast
  then show "j \<le> showCounter' s" "show_inv sh"
    "showLookup' s (movieId sh, theaterId sh) \<noteq> None"
    by blast+
qed

lemma fresh_show_id: "service_inv s \<Longrightarrow> shows' s (showCounter' s + 1) = None"
proof (rule ccontr)
  assume inv: "service_inv s" and "shows' s (showCounter' s + 1) \<noteq> None"
  then obtain sh where "shows' s (showCounter' s + 1) = Some sh" by auto
  from service_inv_showD(1) [OF inv this] show False by simp
qed

lemma createShow_failure:
  "movies' s m = None \<or> theaters' s t = None \<or> showLookup' s (m, t) \<noteq> None
   \<Longrightarrow> createShow m t s = (- 1, s)"
  by (auto simp: createShow_def)

lemma createShow_success:
  assumes "service_inv s" "movies' s m \<noteq> None" "theaters' s t \<noteq> None"
    "showLookup' s (m, t) = None"
  shows "createShow m t s =
    (showCounter' s + 1,
     s\<lparr> showCounter' := showCounter' s + 1,
        shows' := (shows' s)(showCounter' s + 1 \<mapsto> newShow m t),
        showLookup' := (showLookup' s)((m, t) \<mapsto> showCounter' s + 1),
        activeMovies' := insert m (activeMovies' s),
        movieToTheaters' :=
                    (movieToTheaters' s)
                      (m \<mapsto> insert t (case movieToTheaters' s m of
                                          None \<Rightarrow> {} | Some ts \<Rightarrow> ts)) \<rparr>)"
proof -
  from assms(2) obtain mv where mv: "movies' s m = Some mv" by auto
  from assms(3) obtain th where th: "theaters' s t = Some th" by auto
  from mv th assms(4) fresh_show_id [OF assms(1)] show ?thesis
    by (simp add: createShow_def Let_def emplace_def)
qed

lemma service_inv_createShow:
  assumes "service_inv s"
  shows "service_inv (snd (createShow m t s))"
proof (cases "movies' s m = None \<or> theaters' s t = None \<or> showLookup' s (m, t) \<noteq> None")
  case True
  with assms show ?thesis by (simp add: createShow_failure)
next
  case False
  let ?i = "showCounter' s + 1"
  define s' where "s' = snd (createShow m t s)"
  from False have pre: "movies' s m \<noteq> None" "theaters' s t \<noteq> None"
    "showLookup' s (m, t) = None" by simp_all
  have f: "showCounter' s' = ?i" "shows' s' = (shows' s)(?i \<mapsto> newShow m t)"
    "showLookup' s' = (showLookup' s)((m, t) \<mapsto> ?i)"
    by (simp_all add: s'_def createShow_success [OF assms pre])
  from assms have nonneg: "0 \<le> showCounter' s" by (simp add: service_inv_def)
  have "service_inv s'"
    unfolding service_inv_def
  proof (intro conjI allI impI)
    show "0 \<le> showCounter' s'" using nonneg f(1) by simp
  next
    fix j sh
    assume sh: "shows' s' j = Some sh"
    show "j \<le> showCounter' s'"
    proof (cases "j = ?i")
      case True then show ?thesis by (simp add: f)
    next
      case False
      with sh have "shows' s j = Some sh" by (simp add: f)
      from service_inv_showD(1) [OF assms this] show ?thesis by (simp add: f)
    qed
    show "show_inv sh"
    proof (cases "j = ?i")
      case True
      with sh have "sh = newShow m t" by (simp add: f)
      then show ?thesis by (simp add: show_inv_newShow)
    next
      case False
      with sh have "shows' s j = Some sh" by (simp add: f)
      from service_inv_showD(2) [OF assms this] show ?thesis .
    qed
    show "showLookup' s' (movieId sh, theaterId sh) \<noteq> None"
    proof (cases "j = ?i")
      case True
      with sh have "sh = newShow m t" by (simp add: f)
      then show ?thesis by (simp add: f newShow_def)
    next
      case False
      with sh have "shows' s j = Some sh" by (simp add: f)
      from service_inv_showD(3) [OF assms this] show ?thesis by (simp add: f)
    qed
  qed
  then show ?thesis by (simp add: s'_def)
qed

lemma bookSeats_rejected:
  assumes "shows' s i = Some sh"
    and "checkLabels (seats sh) (replicate (nat TOTAL_SEATS) False) [] ls = Inl r"
  shows "bookSeats i ls s = (False, s)"
  using assms by (simp add: bookSeats_def)

lemma bookSeats_accepted:
  assumes "shows' s i = Some sh"
    and "checkLabels (seats sh) (replicate (nat TOTAL_SEATS) False) [] ls = Inr tmp"
  shows "bookSeats i ls s = (True, s\<lparr>shows' := (shows' s)(i \<mapsto> commitSeats sh tmp)\<rparr>)"
  using assms by (simp add: bookSeats_def)

lemma service_inv_bookSeats:
  assumes "service_inv s"
  shows "service_inv (snd (bookSeats i ls s))"
proof (cases "shows' s i")
  case None
  with assms show ?thesis by (simp add: bookSeats_def)
next
  case (Some sh)
  show ?thesis
  proof (cases "checkLabels (seats sh) (replicate (nat TOTAL_SEATS) False) [] ls")
    case (Inl r)
    with Some assms show ?thesis by (simp add: bookSeats_rejected)
  next
    case (Inr tmp)
    define s' where "s' = snd (bookSeats i ls s)"
    have f: "showCounter' s' = showCounter' s" "showLookup' s' = showLookup' s"
      "shows' s' = (shows' s)(i \<mapsto> commitSeats sh tmp)"
      by (simp_all add: s'_def bookSeats_accepted [OF Some Inr])
    have "service_inv s'"
      unfolding service_inv_def
    proof (intro conjI allI impI)
      show "0 \<le> showCounter' s'" using assms by (simp add: f service_inv_def)
    next
      fix j sh'
      assume sh': "shows' s' j = Some sh'"
      show "j \<le> showCounter' s'"
      proof (cases "j = i")
        case True
        with service_inv_showD(1) [OF assms Some] show ?thesis by (simp add: f)
      next
        case False
        with sh' have "shows' s j = Some sh'" by (simp add: f)
        from service_inv_showD(1) [OF assms this] show ?thesis by (simp add: f)
      qed
      show "show_inv sh'"
      proof (cases "j = i")
        case True
        with sh' have "sh' = commitSeats sh tmp" by (simp add: f)
        with show_inv_commitSeats [OF service_inv_showD(2) [OF assms Some] Inr]
        show ?thesis by simp
      next
        case False
        with sh' have "shows' s j = Some sh'" by (simp add: f)
        from service_inv_showD(2) [OF assms this] show ?thesis .
      qed
      show "showLookup' s' (movieId sh', theaterId sh') \<noteq> None"
      proof (cases "j = i")
        case True
        with sh' have "sh' = commitSeats sh tmp" by (simp add: f)
        with service_inv_showD(3) [OF assms Some] show ?thesis
          by (simp add: f commitSeats_fields)
      next
        case False
        with sh' have "shows' s j = Some sh'" by (simp add: f)
        from service_inv_showD(3) [OF assms this] show ?thesis by (simp add: f)
      qed
    qed
    then show ?thesis by (simp add: s'_def)
  qed
qed

lemma service_inv_perform: "service_inv s \<Longrightarrow> service_inv (perform x s)"
  by (cases x)
     (simp_all add: service_inv_addMovie service_inv_addTheater service_inv_createShow
        service_inv_bookSeats)

lemma service_inv_run: "service_inv s \<Longrightarrow> service_inv (run xs s)"
  by (induction xs arbitrary: s) (simp_all add: service_inv_perform)

section \<open>Booking\<close>

lemma round_trip_index:
  assumes "0 \<le> i" "i < TOTAL_SEATS"
  shows "seatIndexFromLabel (seatLabelFromIndex i) = i"
proof -
  from assms have "i \<in> set [0..19]" by (simp add: TOTAL_SEATS_def)
  with all_indices_round_trip show ?thesis by blast
qed

lemma available_label_free:
  assumes "x \<in> set (map seatLabelFromIndex (filter (\<lambda>j. \<not> sts ! nat j) [0..TOTAL_SEATS - 1]))"
  shows "0 \<le> seatIndexFromLabel x \<and> \<not> sts ! nat (seatIndexFromLabel x)
         \<and> x = seatLabelFromIndex (seatIndexFromLabel x)"
proof -
  from assms obtain j where j: "x = seatLabelFromIndex j" "0 \<le> j" "j < TOTAL_SEATS"
    "\<not> sts ! nat j" by auto
  from round_trip_index [OF j(2,3)] j show ?thesis by simp
qed

lemma demo_show: "shows' demo 1 = Some (newShow 1 1)"
  by (simp add: demo_def initial_def addMovie_def addTheater_def createShow_def
      Let_def emplace_def)

lemma demo_inv: "service_inv demo"
  unfolding demo_def by (rule service_inv_run [OF service_inv_initial])

lemma newShow_seats:
  "length (seats (newShow m t)) = nat TOTAL_SEATS"
  "j < nat TOTAL_SEATS \<Longrightarrow> \<not> seats (newShow m t) ! j"
  by (simp_all add: newShow_def)

text \<open>
  Claim C1. For a show, with its \<open>TOTAL_SEATS\<close> seats, and a request in which some label
  fails to decode, some decoded index occurs twice, or some label names an occupied
  seat, \<open>bookSeats\<close> returns failure and the service state, with the show's seat vector
  and cached count, is unchanged. Any request either fails in this way or books exactly
  as many seats as it has labels.
\<close>

theorem bookSeats_all_or_nothing:
  assumes "shows' s i = Some sh" and "length (seats sh) = nat TOTAL_SEATS"
  shows "((\<exists>l \<in> set ls. seatIndexFromLabel l < 0)
            \<or> \<not> distinct (map seatIndexFromLabel ls)
            \<or> (\<exists>l \<in> set ls. 0 \<le> seatIndexFromLabel l \<and> seats sh ! nat (seatIndexFromLabel l))
          \<longrightarrow> bookSeats i ls s = (False, s)
              \<and> shows' (snd (bookSeats i ls s)) i = Some sh)
       \<and> (bookSeats i ls s = (False, s)
           \<or> (\<exists>sh'. bookSeats i ls s = (True, s\<lparr>shows' := (shows' s)(i \<mapsto> sh')\<rparr>)
                 \<and> freeCount (seats sh') = freeCount (seats sh) - int (length ls)
                 \<and> availableCount sh' = availableCount sh - int (length ls)))"
proof (intro conjI impI)
  assume bad: "(\<exists>l \<in> set ls. seatIndexFromLabel l < 0)
            \<or> \<not> distinct (map seatIndexFromLabel ls)
            \<or> (\<exists>l \<in> set ls. 0 \<le> seatIndexFromLabel l \<and> seats sh ! nat (seatIndexFromLabel l))"
  have "\<exists>r. checkLabels (seats sh) (replicate (nat TOTAL_SEATS) False) [] ls = Inl r"
  proof (cases "checkLabels (seats sh) (replicate (nat TOTAL_SEATS) False) [] ls")
    case (Inl r)
    then show ?thesis by blast
  next
    case (Inr tmp)
    then have "(\<forall>l \<in> set ls. 0 \<le> seatIndexFromLabel l \<and> \<not> seats sh ! nat (seatIndexFromLabel l))
        \<and> distinct (map seatIndexFromLabel ls)"
      by (simp add: checkLabels_fresh_iff)
    with bad show ?thesis by force
  qed
  then obtain r where "checkLabels (seats sh) (replicate (nat TOTAL_SEATS) False) [] ls = Inl r" ..
  from bookSeats_rejected [OF assms(1) this]
  show "bookSeats i ls s = (False, s)" .
  then show "shows' (snd (bookSeats i ls s)) i = Some sh" using assms(1) by simp
next
  show "bookSeats i ls s = (False, s)
           \<or> (\<exists>sh'. bookSeats i ls s = (True, s\<lparr>shows' := (shows' s)(i \<mapsto> sh')\<rparr>)
                 \<and> freeCount (seats sh') = freeCount (seats sh) - int (length ls)
                 \<and> availableCount sh' = availableCount sh - int (length ls))"
  proof (cases "checkLabels (seats sh) (replicate (nat TOTAL_SEATS) False) [] ls")
    case (Inl r)
    from bookSeats_rejected [OF assms(1) this] show ?thesis by simp
  next
    case (Inr tmp)
    then have tmp: "tmp = map seatIndexFromLabel ls"
      and d: "distinct (map seatIndexFromLabel ls)"
      and ok: "\<forall>l \<in> set ls. 0 \<le> seatIndexFromLabel l \<and> \<not> seats sh ! nat (seatIndexFromLabel l)"
      by (simp_all add: checkLabels_fresh_iff)
    have "\<forall>k \<in> set tmp. 0 \<le> k \<and> nat k < length (seats sh) \<and> \<not> seats sh ! nat k"
      using ok assms(2) seatIndexFromLabel_nat_less by (auto simp: tmp)
    with d have "freeCount (seats (commitSeats sh tmp)) = freeCount (seats sh) - int (length tmp)"
      unfolding tmp by (intro commitSeats_freeCount)
    with bookSeats_accepted [OF assms(1) Inr] show ?thesis
      by (auto simp: commitSeats_fields tmp)
  qed
qed

theorem bookSeats_all_or_nothing_witness:
  "shows' demo 1 = Some (newShow 1 1) \<and> length (seats (newShow 1 1)) = nat TOTAL_SEATS
   \<and> (\<exists>l \<in> set [''A3'', ''Z9'']. seatIndexFromLabel l < 0)
   \<and> bookSeats 1 [''A3'', ''Z9''] demo = (False, demo)
   \<and> shows' (snd (bookSeats 1 [''A3'', ''Z9''] demo)) 1 = Some (newShow 1 1)"
proof -
  have "seatIndexFromLabel ''Z9'' < 0" by code_simp
  then have h: "\<exists>l \<in> set [''A3'', ''Z9'']. seatIndexFromLabel l < 0" by simp
  from bookSeats_all_or_nothing [OF demo_show newShow_seats(1), of "[''A3'', ''Z9'']"] h
  have "bookSeats 1 [''A3'', ''Z9''] demo = (False, demo)
        \<and> shows' (snd (bookSeats 1 [''A3'', ''Z9''] demo)) 1 = Some (newShow 1 1)"
    by blast
  with h demo_show newShow_seats(1) [of 1 1] show ?thesis by blast
qed

text \<open>
  Claim C2, as stated: a request of \<open>K\<close> distinct, currently free, well-formed labels
  succeeds. The labels \<open>A1\<close> and \<open>A01\<close> are distinct, both decode (to index \<open>0\<close>), and
  seat \<open>0\<close> of the fresh show is free; the request is refused.
\<close>

theorem bookSeats_distinct_labels_counterexample:
  "shows' demo 1 = Some (newShow 1 1)
   \<and> distinct [''A1'', ''A01'']
   \<and> seatIndexFromLabel ''A1'' = 0 \<and> seatIndexFromLabel ''A01'' = 0
   \<and> \<not> seats (newShow 1 1) ! 0
   \<and> bookSeats 1 [''A1'', ''A01''] demo = (False, demo)"
proof -
  have i1: "seatIndexFromLabel ''A1'' = 0" by code_simp
  have i2: "seatIndexFromLabel ''A01'' = 0" by code_simp
  have free: "\<not> seats (newShow 1 1) ! 0"
    by (rule newShow_seats(2)) (simp add: TOTAL_SEATS_def)
  have "checkLabels (seats (newShow 1 1)) (replicate (nat TOTAL_SEATS) False) []
          [''A1'', ''A01''] = Inl (DuplicateSeat ''A01'')"
    using free by (simp add: i1 i2 TOTAL_SEATS_def)
  from bookSeats_rejected [OF demo_show this] i1 i2 free demo_show
  show ?thesis by simp
qed

text \<open>
  Claim C2, amended: for an existing show and a request of \<open>K\<close> well-formed, currently
  free labels whose decoded indices are pairwise distinct, \<open>bookSeats\<close> returns success,
  marks exactly the decoded seats occupied, decrements \<open>availableCount\<close> and the number
  of free seats by \<open>K\<close>, leaves every other show as it was, and neither the requested
  labels nor the labels of their indices appear in the next \<open>getAvailableSeats\<close> result.
  The show has \<open>TOTAL_SEATS\<close> seats and a cached count equal to the number of its free
  seats, as every show of a service built by calls has.
\<close>

theorem bookSeats_books_requested_seats:
  assumes "shows' s i = Some sh" and "length (seats sh) = nat TOTAL_SEATS"
    and "availableCount sh = freeCount (seats sh)"
    and "\<forall>l \<in> set ls. 0 \<le> seatIndexFromLabel l \<and> \<not> seats sh ! nat (seatIndexFromLabel l)"
    and "distinct (map seatIndexFromLabel ls)"
  shows "\<exists>sh' avail.
      bookSeats i ls s = (True, s\<lparr>shows' := (shows' s)(i \<mapsto> sh')\<rparr>)
      \<and> length (seats sh') = length (seats sh)
      \<and> (\<forall>j < length (seats sh).
            seats sh' ! j = (seats sh ! j \<or> int j \<in> seatIndexFromLabel ` set ls))
      \<and> availableCount sh' = availableCount sh - int (length ls)
      \<and> freeCount (seats sh') = freeCount (seats sh) - int (length ls)
      \<and> getAvailableSeats i (snd (bookSeats i ls s)) = Inr avail
      \<and> (\<forall>l \<in> set ls. l \<notin> set avail
            \<and> seatLabelFromIndex (seatIndexFromLabel l) \<notin> set avail)"
proof -
  define tmp where "tmp = map seatIndexFromLabel ls"
  define sh' where "sh' = commitSeats sh tmp"
  define avail where
    "avail = map seatLabelFromIndex (filter (\<lambda>j. \<not> seats sh' ! nat j) [0..TOTAL_SEATS - 1])"
  have chk: "checkLabels (seats sh) (replicate (nat TOTAL_SEATS) False) [] ls = Inr tmp"
    using assms(4,5) by (simp add: checkLabels_fresh_iff tmp_def)
  have book: "bookSeats i ls s = (True, s\<lparr>shows' := (shows' s)(i \<mapsto> sh')\<rparr>)"
    unfolding sh'_def by (rule bookSeats_accepted [OF assms(1) chk])
  have nonneg: "\<forall>k \<in> set tmp. 0 \<le> k" using assms(4) by (simp add: tmp_def)
  have len: "length (seats sh') = length (seats sh)"
    by (simp add: sh'_def commitSeats_fields)
  have nth: "\<forall>j < length (seats sh).
      seats sh' ! j = (seats sh ! j \<or> int j \<in> seatIndexFromLabel ` set ls)"
    using commitSeats_nth [OF _ nonneg, of _ sh] by (simp add: sh'_def tmp_def)
  have cnt: "availableCount sh' = availableCount sh - int (length ls)"
    by (simp add: sh'_def commitSeats_fields tmp_def)
  have "\<forall>k \<in> set tmp. 0 \<le> k \<and> nat k < length (seats sh) \<and> \<not> seats sh ! nat k"
    using assms(2,4) seatIndexFromLabel_nat_less by (auto simp: tmp_def)
  with assms(5) have free: "freeCount (seats sh') = freeCount (seats sh) - int (length ls)"
    using commitSeats_freeCount [of tmp sh] by (simp add: sh'_def tmp_def)
  have "availableCount sh' = freeCount (seats sh')" using cnt free assms(3) by simp
  then have pos: "0 \<le> availableCount sh'" by (simp add: freeCount_def)
  have avail: "getAvailableSeats i (snd (bookSeats i ls s)) = Inr avail"
    unfolding avail_def by (rule getAvailableSeats_eq [OF _ pos]) (simp add: book)
  have occupied: "seats sh' ! nat (seatIndexFromLabel l)" if "l \<in> set ls" for l
  proof -
    from that assms(4) have "0 \<le> seatIndexFromLabel l" by blast
    moreover have "nat (seatIndexFromLabel l) < length (seats sh)"
      using seatIndexFromLabel_nat_less [of l] assms(2) by simp
    ultimately show ?thesis using nth that by simp
  qed
  have gone: "l \<notin> set avail \<and> seatLabelFromIndex (seatIndexFromLabel l) \<notin> set avail"
    if l: "l \<in> set ls" for l
  proof (intro conjI notI)
    assume "l \<in> set avail"
    from available_label_free [OF this [unfolded avail_def]] occupied [OF l]
    show False by blast
  next
    assume in_avail: "seatLabelFromIndex (seatIndexFromLabel l) \<in> set avail"
    from l assms(4) have "0 \<le> seatIndexFromLabel l" by blast
    moreover have "seatIndexFromLabel l < TOTAL_SEATS"
      using seatIndexFromLabel_range [of l] by simp
    ultimately have "seatIndexFromLabel (seatLabelFromIndex (seatIndexFromLabel l))
        = seatIndexFromLabel l" by (rule round_trip_index)
    with available_label_free [OF in_avail [unfolded avail_def]] occupied [OF l]
    show False by simp
  qed
  from book len nth cnt free avail gone show ?thesis by blast
qed

theorem bookSeats_books_requested_seats_witness:
  "shows' demo 1 = Some (newShow 1 1) \<and> length (seats (newShow 1 1)) = nat TOTAL_SEATS
   \<and> availableCount (newShow 1 1) = freeCount (seats (newShow 1 1))
   \<and> 0 \<le> seatIndexFromLabel ''A1''
   \<and> \<not> seats (newShow 1 1) ! nat (seatIndexFromLabel ''A1'')
   \<and> 0 \<le> seatIndexFromLabel ''A2''
   \<and> \<not> seats (newShow 1 1) ! nat (seatIndexFromLabel ''A2'')
   \<and> distinct (map seatIndexFromLabel [''A1'', ''A2''])
   \<and> (\<exists>sh' avail.
        bookSeats 1 [''A1'', ''A2''] demo = (True, demo\<lparr>shows' := (shows' demo)(1 \<mapsto> sh')\<rparr>)
        \<and> availableCount sh' = availableCount (newShow 1 1) - 2
        \<and> getAvailableSeats 1 (snd (bookSeats 1 [''A1'', ''A2''] demo)) = Inr avail
        \<and> ''A1'' \<notin> set avail \<and> ''A2'' \<notin> set avail)"
proof -
  have i1: "seatIndexFromLabel ''A1'' = 0" by code_simp
  have i2: "seatIndexFromLabel ''A2'' = 1" by code_simp
  have h3: "\<forall>l \<in> set [''A1'', ''A2''].
         0 \<le> seatIndexFromLabel l \<and> \<not> seats (newShow 1 1) ! nat (seatIndexFromLabel l)"
    using newShow_seats(2) [of 0 1 1] newShow_seats(2) [of 1 1 1]
    by (simp add: i1 i2 TOTAL_SEATS_def)
  have h4: "distinct (map seatIndexFromLabel [''A1'', ''A2''])" by (simp add: i1 i2)
  have h2: "availableCount (newShow 1 1) = freeCount (seats (newShow 1 1))"
    using show_inv_newShow [of 1 1] by (simp add: show_inv_def)
  from bookSeats_books_requested_seats [OF demo_show newShow_seats(1) h2 h3 h4]
  obtain sh' avail where
    "bookSeats 1 [''A1'', ''A2''] demo = (True, demo\<lparr>shows' := (shows' demo)(1 \<mapsto> sh')\<rparr>)"
    "availableCount sh' = availableCount (newShow 1 1) - int (length [''A1'', ''A2''])"
    "getAvailableSeats 1 (snd (bookSeats 1 [''A1'', ''A2''] demo)) = Inr avail"
    "\<forall>l \<in> set [''A1'', ''A2'']. l \<notin> set avail
            \<and> seatLabelFromIndex (seatIndexFromLabel l) \<notin> set avail"
    by blast
  then have "\<exists>sh' avail.
        bookSeats 1 [''A1'', ''A2''] demo = (True, demo\<lparr>shows' := (shows' demo)(1 \<mapsto> sh')\<rparr>)
        \<and> availableCount sh' = availableCount (newShow 1 1) - 2
        \<and> getAvailableSeats 1 (snd (bookSeats 1 [''A1'', ''A2''] demo)) = Inr avail
        \<and> ''A1'' \<notin> set avail \<and> ''A2'' \<notin> set avail"
    by auto
  moreover from h3 have "0 \<le> seatIndexFromLabel ''A1''
      \<and> \<not> seats (newShow 1 1) ! nat (seatIndexFromLabel ''A1'')
      \<and> 0 \<le> seatIndexFromLabel ''A2''
      \<and> \<not> seats (newShow 1 1) ! nat (seatIndexFromLabel ''A2'')"
    by simp
  ultimately show ?thesis using demo_show newShow_seats(1) [of 1 1] h2 h4 by blast
qed

text \<open>
  Claim C9. For a show id that is not in the catalog, \<open>getAvailableSeats\<close> raises
  \<open>std::invalid_argument\<close>, an error value and not a boolean, while \<open>bookSeats\<close> returns
  \<open>false\<close> and leaves the whole state, and so every seat vector, as it was.
\<close>

theorem unknown_show_id:
  "shows' s i = None \<Longrightarrow>
   getAvailableSeats i s = Inl (InvalidArgument ''Invalid show ID'')
   \<and> bookSeats i ls s = (False, s)"
  by (simp add: getAvailableSeats_def bookSeats_def)

theorem unknown_show_id_witness:
  "shows' demo 2 = None
   \<and> getAvailableSeats 2 demo = Inl (InvalidArgument ''Invalid show ID'')
   \<and> bookSeats 2 [''A1''] demo = (False, demo)"
proof -
  have h: "shows' demo 2 = None"
    by (simp add: demo_def initial_def addMovie_def addTheater_def createShow_def
        Let_def emplace_def)
  from unknown_show_id [OF h, of "[''A1'']"] h show ?thesis by simp
qed

text \<open>
  Claim C10. Duplicates within one request are detected on the decoded index: a request
  with two different label strings that decode to the same index returns failure and
  leaves the state unchanged, for every show. When every label of such a request is
  well-formed and names a free seat, the rejection is the duplicate one. The labels
  \<open>A1\<close> and \<open>A01\<close> are an instance.
\<close>

theorem bookSeats_duplicate_by_index:
  assumes "shows' s i = Some sh"
  shows "(a < length ls \<and> b < length ls \<and> a \<noteq> b \<and> ls ! a \<noteq> ls ! b
            \<and> seatIndexFromLabel (ls ! a) = seatIndexFromLabel (ls ! b)
          \<longrightarrow> bookSeats i ls s = (False, s)
              \<and> ((\<forall>l \<in> set ls. 0 \<le> seatIndexFromLabel l
                      \<and> \<not> seats sh ! nat (seatIndexFromLabel l))
                  \<longrightarrow> (\<exists>l \<in> set ls.
                        checkLabels (seats sh) (replicate (nat TOTAL_SEATS) False) [] ls
                          = Inl (DuplicateSeat l))))
       \<and> ''A1'' \<noteq> ''A01'' \<and> seatIndexFromLabel ''A1'' = seatIndexFromLabel ''A01''
       \<and> bookSeats i [''A1'', ''A01''] s = (False, s)"
proof -
  have not_Inr: "checkLabels (seats sh) (replicate (nat TOTAL_SEATS) False) [] xs \<noteq> Inr r"
    if "\<not> distinct (map seatIndexFromLabel xs)" for xs r
    using that by (simp add: checkLabels_fresh_iff)
  have rejected: "bookSeats i xs s = (False, s)"
    if "\<not> distinct (map seatIndexFromLabel xs)" for xs
  proof (cases "checkLabels (seats sh) (replicate (nat TOTAL_SEATS) False) [] xs")
    case (Inl r)
    from bookSeats_rejected [OF assms this] show ?thesis .
  next
    case (Inr r)
    with not_Inr [OF that, of r] show ?thesis by contradiction
  qed
  have i1: "seatIndexFromLabel ''A1'' = 0" by code_simp
  have i2: "seatIndexFromLabel ''A01'' = 0" by code_simp
  have general: "bookSeats i ls s = (False, s)
      \<and> ((\<forall>l \<in> set ls. 0 \<le> seatIndexFromLabel l \<and> \<not> seats sh ! nat (seatIndexFromLabel l))
          \<longrightarrow> (\<exists>l \<in> set ls.
                checkLabels (seats sh) (replicate (nat TOTAL_SEATS) False) [] ls
                  = Inl (DuplicateSeat l)))"
    if dup: "a < length ls \<and> b < length ls \<and> a \<noteq> b \<and> ls ! a \<noteq> ls ! b
            \<and> seatIndexFromLabel (ls ! a) = seatIndexFromLabel (ls ! b)"
  proof -
    from dup have "map seatIndexFromLabel ls ! a = map seatIndexFromLabel ls ! b"
      "a < length (map seatIndexFromLabel ls)" "b < length (map seatIndexFromLabel ls)" "a \<noteq> b"
      by simp_all
    then have nd: "\<not> distinct (map seatIndexFromLabel ls)"
      using nth_eq_iff_index_eq by blast
    show ?thesis
    proof (intro conjI impI)
      show "bookSeats i ls s = (False, s)" by (rule rejected [OF nd])
    next
      assume "\<forall>l \<in> set ls. 0 \<le> seatIndexFromLabel l \<and> \<not> seats sh ! nat (seatIndexFromLabel l)"
      from checkLabels_reason [OF this, of "replicate (nat TOTAL_SEATS) False" "[]"] not_Inr [OF nd]
      show "\<exists>l \<in> set ls.
          checkLabels (seats sh) (replicate (nat TOTAL_SEATS) False) [] ls = Inl (DuplicateSeat l)"
        by blast
    qed
  qed
  have "bookSeats i [''A1'', ''A01''] s = (False, s)"
    by (rule rejected) (simp add: i1 i2)
  with general i1 i2 show ?thesis by simp
qed

theorem bookSeats_duplicate_by_index_witness:
  "shows' demo 1 = Some (newShow 1 1)
   \<and> (0::nat) < length [''A5'', ''A7'', ''A005''] \<and> (2::nat) < length [''A5'', ''A7'', ''A005'']
   \<and> [''A5'', ''A7'', ''A005''] ! 0 \<noteq> [''A5'', ''A7'', ''A005''] ! 2
   \<and> seatIndexFromLabel ([''A5'', ''A7'', ''A005''] ! 0)
       = seatIndexFromLabel ([''A5'', ''A7'', ''A005''] ! 2)
   \<and> 0 \<le> seatIndexFromLabel ''A5''
   \<and> \<not> seats (newShow 1 1) ! nat (seatIndexFromLabel ''A5'')
   \<and> 0 \<le> seatIndexFromLabel ''A7''
   \<and> \<not> seats (newShow 1 1) ! nat (seatIndexFromLabel ''A7'')
   \<and> 0 \<le> seatIndexFromLabel ''A005''
   \<and> \<not> seats (newShow 1 1) ! nat (seatIndexFromLabel ''A005'')
   \<and> bookSeats 1 [''A5'', ''A7'', ''A005''] demo = (False, demo)
   \<and> (\<exists>l \<in> set [''A5'', ''A7'', ''A005''].
        checkLabels (seats (newShow 1 1)) (replicate (nat TOTAL_SEATS) False) []
          [''A5'', ''A7'', ''A005''] = Inl (DuplicateSeat l))"
proof -
  have i1: "seatIndexFromLabel ''A5'' = 4" by code_simp
  have i2: "seatIndexFromLabel ''A7'' = 6" by code_simp
  have i3: "seatIndexFromLabel ''A005'' = 4" by code_simp
  have h1: "(0::nat) < length [''A5'', ''A7'', ''A005''] \<and> (2::nat) < length [''A5'', ''A7'', ''A005'']
      \<and> (0::nat) \<noteq> 2
      \<and> [''A5'', ''A7'', ''A005''] ! 0 \<noteq> [''A5'', ''A7'', ''A005''] ! 2
      \<and> seatIndexFromLabel ([''A5'', ''A7'', ''A005''] ! 0)
          = seatIndexFromLabel ([''A5'', ''A7'', ''A005''] ! 2)"
    by (simp add: i1 i3)
  have h2: "\<forall>l \<in> set [''A5'', ''A7'', ''A005''].
        0 \<le> seatIndexFromLabel l \<and> \<not> seats (newShow 1 1) ! nat (seatIndexFromLabel l)"
    using newShow_seats(2) [of 4 1 1] newShow_seats(2) [of 6 1 1]
    by (simp add: i1 i2 i3 TOTAL_SEATS_def)
  from bookSeats_duplicate_by_index [OF demo_show, of 0 "[''A5'', ''A7'', ''A005'']" 2] h1 h2
  have "bookSeats 1 [''A5'', ''A7'', ''A005''] demo = (False, demo)
     \<and> (\<exists>l \<in> set [''A5'', ''A7'', ''A005''].
        checkLabels (seats (newShow 1 1)) (replicate (nat TOTAL_SEATS) False) []
          [''A5'', ''A7'', ''A005''] = Inl (DuplicateSeat l))"
    by blast
  moreover from h2 have "0 \<le> seatIndexFromLabel ''A5''
      \<and> \<not> seats (newShow 1 1) ! nat (seatIndexFromLabel ''A5'')
      \<and> 0 \<le> seatIndexFromLabel ''A7''
      \<and> \<not> seats (newShow 1 1) ! nat (seatIndexFromLabel ''A7'')
      \<and> 0 \<le> seatIndexFromLabel ''A005''
      \<and> \<not> seats (newShow 1 1) ! nat (seatIndexFromLabel ''A005'')"
    by simp
  ultimately show ?thesis using h1 demo_show by blast
qed

section \<open>Availability, show creation and the catalog\<close>

lemma available_after_create:
  "map seatLabelFromIndex (filter (\<lambda>j. \<not> seats (newShow m t) ! nat j) [0..TOTAL_SEATS - 1])
     = map seatLabelFromIndex [0..TOTAL_SEATS - 1]"
proof -
  have "filter (\<lambda>j. \<not> seats (newShow m t) ! nat j) [0..TOTAL_SEATS - 1] = [0..TOTAL_SEATS - 1]"
  proof (rule filter_True, intro ballI)
    fix j assume "j \<in> set [0..TOTAL_SEATS - 1]"
    then have "nat j < nat TOTAL_SEATS" by (auto simp: TOTAL_SEATS_def)
    then show "\<not> seats (newShow m t) ! nat j" by (rule newShow_seats(2))
  qed
  then show ?thesis by simp
qed

lemma decode_all_labels:
  "map seatIndexFromLabel (map seatLabelFromIndex [0..TOTAL_SEATS - 1]) = [0..TOTAL_SEATS - 1]"
proof -
  have "map (seatIndexFromLabel \<circ> seatLabelFromIndex) [0..TOTAL_SEATS - 1]
          = map (\<lambda>j. j) [0..TOTAL_SEATS - 1]"
    by (rule map_cong [OF refl]) (simp add: round_trip_index)
  then show ?thesis by simp
qed

lemma catalog_inv: "service_inv catalog"
  unfolding catalog_def by (rule service_inv_run [OF service_inv_initial])

lemma catalog_fields:
  "movies' catalog 1 \<noteq> None" "theaters' catalog 1 \<noteq> None" "showLookup' catalog (1, 1) = None"
  "showCounter' catalog = 0" "shows' catalog = Map.empty"
  by (simp_all add: catalog_def initial_def addMovie_def addTheater_def Let_def emplace_def)

text \<open>
  Claim C8. For an existing show, with \<open>TOTAL_SEATS\<close> seats and a cached count that is
  not negative, \<open>getAvailableSeats\<close> returns the labels of the unoccupied seat indices,
  in ascending index order. Right after \<open>createShow\<close> succeeds, it returns \<open>TOTAL_SEATS\<close>
  labels, pairwise different, which decode to the indices \<open>0, \<dots>, TOTAL_SEATS - 1\<close> in
  this order.
\<close>

theorem getAvailableSeats_lists_free_seats:
  "(shows' s i = Some sh \<and> length (seats sh) = nat TOTAL_SEATS
      \<and> 0 \<le> availableCount sh \<longrightarrow>
      getAvailableSeats i s =
        Inr (map seatLabelFromIndex (filter (\<lambda>j. \<not> seats sh ! nat j) [0..TOTAL_SEATS - 1])))
   \<and> (service_inv s' \<and> movies' s' m \<noteq> None \<and> theaters' s' t \<noteq> None
        \<and> showLookup' s' (m, t) = None \<longrightarrow>
      (\<exists>avail. getAvailableSeats (fst (createShow m t s')) (snd (createShow m t s')) = Inr avail
         \<and> length avail = nat TOTAL_SEATS \<and> distinct avail
         \<and> map seatIndexFromLabel avail = [0..TOTAL_SEATS - 1]))"
proof (intro conjI impI)
  assume "shows' s i = Some sh \<and> length (seats sh) = nat TOTAL_SEATS
      \<and> 0 \<le> availableCount sh"
  then show "getAvailableSeats i s =
        Inr (map seatLabelFromIndex (filter (\<lambda>j. \<not> seats sh ! nat j) [0..TOTAL_SEATS - 1]))"
    by (simp add: getAvailableSeats_eq)
next
  assume pre: "service_inv s' \<and> movies' s' m \<noteq> None \<and> theaters' s' t \<noteq> None
        \<and> showLookup' s' (m, t) = None"
  let ?avail = "map seatLabelFromIndex [0..TOTAL_SEATS - 1]"
  from pre have cs: "shows' (snd (createShow m t s')) (fst (createShow m t s')) = Some (newShow m t)"
    by (simp add: createShow_success)
  have "getAvailableSeats (fst (createShow m t s')) (snd (createShow m t s')) = Inr ?avail"
  proof -
    have "0 \<le> availableCount (newShow m t)" by (simp add: newShow_def TOTAL_SEATS_def)
    from getAvailableSeats_eq [OF cs this] show ?thesis
      by (simp only: available_after_create)
  qed
  moreover have "length ?avail = nat TOTAL_SEATS" by (simp add: TOTAL_SEATS_def)
  moreover have dec: "map seatIndexFromLabel ?avail = [0..TOTAL_SEATS - 1]"
    by (rule decode_all_labels)
  moreover have "distinct ?avail"
  proof -
    have "distinct (map seatIndexFromLabel ?avail)" unfolding dec by simp
    then show ?thesis by (simp only: distinct_map)
  qed
  ultimately show "\<exists>avail.
      getAvailableSeats (fst (createShow m t s')) (snd (createShow m t s')) = Inr avail
      \<and> length avail = nat TOTAL_SEATS \<and> distinct avail
      \<and> map seatIndexFromLabel avail = [0..TOTAL_SEATS - 1]"
    by blast
qed


theorem getAvailableSeats_lists_free_seats_witness:
  "shows' demo 1 = Some (newShow 1 1) \<and> length (seats (newShow 1 1)) = nat TOTAL_SEATS
   \<and> 0 \<le> availableCount (newShow 1 1)
   \<and> getAvailableSeats 1 demo =
       Inr [''A1'', ''A2'', ''A3'', ''A4'', ''A5'', ''A6'', ''A7'', ''A8'', ''A9'', ''A10'',
            ''A11'', ''A12'', ''A13'', ''A14'', ''A15'', ''A16'', ''A17'', ''A18'', ''A19'', ''A20'']
   \<and> service_inv catalog \<and> movies' catalog 1 \<noteq> None \<and> theaters' catalog 1 \<noteq> None
   \<and> showLookup' catalog (1, 1) = None
   \<and> (\<exists>avail. getAvailableSeats (fst (createShow 1 1 catalog)) (snd (createShow 1 1 catalog))
                 = Inr avail
         \<and> length avail = nat TOTAL_SEATS \<and> distinct avail
         \<and> map seatIndexFromLabel avail = [0..TOTAL_SEATS - 1])"
proof -
  have h1: "shows' demo 1 = Some (newShow 1 1) \<and> length (seats (newShow 1 1)) = nat TOTAL_SEATS
      \<and> 0 \<le> availableCount (newShow 1 1)"
    by (simp add: demo_show newShow_seats(1)) (simp add: newShow_def TOTAL_SEATS_def)
  have h2: "service_inv catalog \<and> movies' catalog 1 \<noteq> None \<and> theaters' catalog 1 \<noteq> None
      \<and> showLookup' catalog (1, 1) = None"
    by (simp add: catalog_inv catalog_fields)
  note t = getAvailableSeats_lists_free_seats
    [where s = demo and i = 1 and sh = "newShow 1 1" and s' = catalog and m = 1 and t = 1]
  have ev: "map seatLabelFromIndex
              (filter (\<lambda>j. \<not> seats (newShow 1 1) ! nat j) [0..TOTAL_SEATS - 1])
      = [''A1'', ''A2'', ''A3'', ''A4'', ''A5'', ''A6'', ''A7'', ''A8'', ''A9'', ''A10'',
         ''A11'', ''A12'', ''A13'', ''A14'', ''A15'', ''A16'', ''A17'', ''A18'', ''A19'', ''A20'']"
    by code_simp
  from t h1 have "getAvailableSeats 1 demo =
      Inr (map seatLabelFromIndex
             (filter (\<lambda>j. \<not> seats (newShow 1 1) ! nat j) [0..TOTAL_SEATS - 1]))"
    by blast
  then have c1: "getAvailableSeats 1 demo =
       Inr [''A1'', ''A2'', ''A3'', ''A4'', ''A5'', ''A6'', ''A7'', ''A8'', ''A9'', ''A10'',
            ''A11'', ''A12'', ''A13'', ''A14'', ''A15'', ''A16'', ''A17'', ''A18'', ''A19'', ''A20'']"
    by (simp only: ev)
  from t h2 have c2: "\<exists>avail.
      getAvailableSeats (fst (createShow 1 1 catalog)) (snd (createShow 1 1 catalog)) = Inr avail
      \<and> length avail = nat TOTAL_SEATS \<and> distinct avail
      \<and> map seatIndexFromLabel avail = [0..TOTAL_SEATS - 1]"
    by blast
  from h1 h2 c1 c2 show ?thesis by blast
qed

lemma multiplex_inv: "service_inv multiplex"
  unfolding multiplex_def by (rule service_inv_run [OF service_inv_initial])

lemma toLower_other_name: "toLower ''IMAX'' \<noteq> toLower ''Cineplex''"
  by code_simp

lemma multiplex_fields:
  "movies' multiplex 1 \<noteq> None" "theaters' multiplex 2 \<noteq> None"
  "showLookup' multiplex (1, 2) = None" "showCounter' multiplex = 1"
  "movieToTheaters' multiplex 1 = Some {1}"
  by (simp_all add: multiplex_def initial_def addMovie_def addTheater_def createShow_def
      Let_def emplace_def toLower_other_name)

text \<open>
  Claim C7. In a state built by calls, \<open>createShow\<close> returns \<open>-1\<close> and changes nothing
  when the movie id is unknown, the theater id is unknown, or the pair already has a
  show. Otherwise it returns the next show id, which no show had before, stores a show
  with \<open>TOTAL_SEATS\<close> unoccupied seats and \<open>availableCount = TOTAL_SEATS\<close> under it, maps
  the pair to the new id in the pair index, adds the movie to the active-movie set, and
  adds the theater to the set the movie-to-theaters index holds for the movie (the
  theaters already in it stay, other movies' entries are untouched); a second call for
  the same pair then fails and exactly one show exists for the pair.
\<close>

theorem createShow_checks_and_registers:
  assumes "service_inv s"
  shows "(movies' s m = None \<or> theaters' s t = None \<or> showLookup' s (m, t) \<noteq> None
            \<longrightarrow> createShow m t s = (- 1, s))
       \<and> (movies' s m \<noteq> None \<and> theaters' s t \<noteq> None \<and> showLookup' s (m, t) = None \<longrightarrow>
            (\<exists>i s' sh. createShow m t s = (i, s')
               \<and> i = showCounter' s + 1 \<and> i \<noteq> - 1 \<and> shows' s i = None
               \<and> showCounter' s' = i
               \<and> shows' s' = (shows' s)(i \<mapsto> sh)
               \<and> movieId sh = m \<and> theaterId sh = t
               \<and> seats sh = replicate (nat TOTAL_SEATS) False
               \<and> availableCount sh = TOTAL_SEATS
               \<and> showLookup' s' = (showLookup' s)((m, t) \<mapsto> i)
               \<and> activeMovies' s' = insert m (activeMovies' s)
               \<and> movieToTheaters' s' m
                    = Some (insert t (case movieToTheaters' s m of
                                        None \<Rightarrow> {} | Some ts \<Rightarrow> ts))
               \<and> (\<forall>m'. m' \<noteq> m \<longrightarrow> movieToTheaters' s' m' = movieToTheaters' s m')
               \<and> movies' s' = movies' s \<and> theaters' s' = theaters' s
               \<and> createShow m t s' = (- 1, s')
               \<and> {j. \<exists>x. shows' s' j = Some x \<and> movieId x = m \<and> theaterId x = t} = {i}))"
proof (intro conjI impI)
  assume "movies' s m = None \<or> theaters' s t = None \<or> showLookup' s (m, t) \<noteq> None"
  then show "createShow m t s = (- 1, s)" by (rule createShow_failure)
next
  assume pre: "movies' s m \<noteq> None \<and> theaters' s t \<noteq> None \<and> showLookup' s (m, t) = None"
  let ?i = "showCounter' s + 1"
  define s' where "s' = snd (createShow m t s)"
  from pre have p: "movies' s m \<noteq> None" "theaters' s t \<noteq> None" "showLookup' s (m, t) = None"
    by simp_all
  note cs = createShow_success [OF assms p]
  have ret: "createShow m t s = (?i, s')" by (simp add: s'_def cs)
  have f: "showCounter' s' = ?i" "shows' s' = (shows' s)(?i \<mapsto> newShow m t)"
    "showLookup' s' = (showLookup' s)((m, t) \<mapsto> ?i)"
    "activeMovies' s' = insert m (activeMovies' s)"
    "movieToTheaters' s' m
       = Some (insert t (case movieToTheaters' s m of None \<Rightarrow> {} | Some ts \<Rightarrow> ts))"
    "\<forall>m'. m' \<noteq> m \<longrightarrow> movieToTheaters' s' m' = movieToTheaters' s m'"
    "movies' s' = movies' s" "theaters' s' = theaters' s"
    by (simp_all add: s'_def cs)
  from assms have "0 \<le> showCounter' s" by (simp add: service_inv_def)
  then have ne: "?i \<noteq> - 1" by simp
  have fresh: "shows' s ?i = None" by (rule fresh_show_id [OF assms])
  have again: "createShow m t s' = (- 1, s')"
    by (rule createShow_failure) (simp add: f)
  have only: "{j. \<exists>x. shows' s' j = Some x \<and> movieId x = m \<and> theaterId x = t} = {?i}"
  proof (intro equalityI subsetI)
    fix j assume "j \<in> {j. \<exists>x. shows' s' j = Some x \<and> movieId x = m \<and> theaterId x = t}"
    then obtain x where x: "shows' s' j = Some x" "movieId x = m" "theaterId x = t" by blast
    have "j = ?i"
    proof (rule ccontr)
      assume "j \<noteq> ?i"
      with x(1) have "shows' s j = Some x" by (simp add: f)
      from service_inv_showD(3) [OF assms this] x(2,3) p(3) show False by simp
    qed
    then show "j \<in> {?i}" by simp
  next
    fix j assume "j \<in> {?i}"
    then show "j \<in> {j. \<exists>x. shows' s' j = Some x \<and> movieId x = m \<and> theaterId x = t}"
      by (simp add: f newShow_def)
  qed
  have sh: "movieId (newShow m t) = m" "theaterId (newShow m t) = t"
    "seats (newShow m t) = replicate (nat TOTAL_SEATS) False"
    "availableCount (newShow m t) = TOTAL_SEATS"
    by (simp_all add: newShow_def)
  from ret ne fresh f sh again only
  show "\<exists>i s' sh. createShow m t s = (i, s')
               \<and> i = showCounter' s + 1 \<and> i \<noteq> - 1 \<and> shows' s i = None
               \<and> showCounter' s' = i
               \<and> shows' s' = (shows' s)(i \<mapsto> sh)
               \<and> movieId sh = m \<and> theaterId sh = t
               \<and> seats sh = replicate (nat TOTAL_SEATS) False
               \<and> availableCount sh = TOTAL_SEATS
               \<and> showLookup' s' = (showLookup' s)((m, t) \<mapsto> i)
               \<and> activeMovies' s' = insert m (activeMovies' s)
               \<and> movieToTheaters' s' m
                    = Some (insert t (case movieToTheaters' s m of
                                        None \<Rightarrow> {} | Some ts \<Rightarrow> ts))
               \<and> (\<forall>m'. m' \<noteq> m \<longrightarrow> movieToTheaters' s' m' = movieToTheaters' s m')
               \<and> movies' s' = movies' s \<and> theaters' s' = theaters' s
               \<and> createShow m t s' = (- 1, s')
               \<and> {j. \<exists>x. shows' s' j = Some x \<and> movieId x = m \<and> theaterId x = t} = {i}"
    by blast
qed


theorem createShow_checks_and_registers_witness:
  "service_inv catalog
   \<and> movies' catalog 5 = None \<and> createShow 5 1 catalog = (- 1, catalog)
   \<and> movies' catalog 1 \<noteq> None \<and> theaters' catalog 1 \<noteq> None
   \<and> showLookup' catalog (1, 1) = None
   \<and> fst (createShow 1 1 catalog) = 1
   \<and> showLookup' (snd (createShow 1 1 catalog)) (1, 1) = Some 1
   \<and> activeMovies' (snd (createShow 1 1 catalog)) = {1}
   \<and> movieToTheaters' (snd (createShow 1 1 catalog)) 1 = Some {1}
   \<and> createShow 1 1 (snd (createShow 1 1 catalog)) = (- 1, snd (createShow 1 1 catalog))
   \<and> {j. \<exists>x. shows' (snd (createShow 1 1 catalog)) j = Some x
            \<and> movieId x = 1 \<and> theaterId x = 1} = {1}
   \<and> service_inv multiplex
   \<and> movies' multiplex 1 \<noteq> None \<and> theaters' multiplex 2 \<noteq> None
   \<and> showLookup' multiplex (1, 2) = None
   \<and> movieToTheaters' multiplex 1 = Some {1}
   \<and> fst (createShow 1 2 multiplex) = 2
   \<and> movieToTheaters' (snd (createShow 1 2 multiplex)) 1 = Some {2, 1}"
proof -
  have h1: "movies' catalog 5 = None"
    by (simp add: catalog_def initial_def addMovie_def addTheater_def Let_def emplace_def)
  then have "movies' catalog 5 = None \<or> theaters' catalog 1 = None
      \<or> showLookup' catalog (5, 1) \<noteq> None" by simp
  with createShow_checks_and_registers [OF catalog_inv, of 5 1]
  have c1: "createShow 5 1 catalog = (- 1, catalog)" by blast
  have h2: "movies' catalog 1 \<noteq> None \<and> theaters' catalog 1 \<noteq> None
      \<and> showLookup' catalog (1, 1) = None"
    by (simp add: catalog_fields)
  have e: "activeMovies' catalog = {}" "movieToTheaters' catalog 1 = None"
    by (simp_all add: catalog_def initial_def addMovie_def addTheater_def Let_def emplace_def)
  from h2 createShow_checks_and_registers [OF catalog_inv, of 1 1]
  obtain i s' where r: "createShow 1 1 catalog = (i, s')" "i = showCounter' catalog + 1"
    "showLookup' s' = (showLookup' catalog)((1, 1) \<mapsto> i)"
    "activeMovies' s' = insert 1 (activeMovies' catalog)"
    "movieToTheaters' s' 1
       = Some (insert 1 (case movieToTheaters' catalog 1 of None \<Rightarrow> {} | Some ts \<Rightarrow> ts))"
    "createShow 1 1 s' = (- 1, s')"
    "{j. \<exists>x. shows' s' j = Some x \<and> movieId x = 1 \<and> theaterId x = 1} = {i}"
    by blast
  from r(2) have i: "i = 1" by (simp add: catalog_fields)
  from r(1) have s': "s' = snd (createShow 1 1 catalog)" by simp
  from r i have c2: "fst (createShow 1 1 catalog) = 1" by simp
  from r(3) have c3: "showLookup' (snd (createShow 1 1 catalog)) (1, 1) = Some 1"
    by (simp add: s' [symmetric] i)
  from r(4) have c4: "activeMovies' (snd (createShow 1 1 catalog)) = {1}"
    by (simp add: s' [symmetric] e)
  from r(5) have c5: "movieToTheaters' (snd (createShow 1 1 catalog)) 1 = Some {1}"
    by (simp add: s' [symmetric] e)
  from r(6) have c6: "createShow 1 1 (snd (createShow 1 1 catalog))
      = (- 1, snd (createShow 1 1 catalog))" by (simp only: s')
  from r(7) have c7: "{j. \<exists>x. shows' (snd (createShow 1 1 catalog)) j = Some x
            \<and> movieId x = 1 \<and> theaterId x = 1} = {1}" by (simp only: s' i)
  have h3: "movies' multiplex 1 \<noteq> None \<and> theaters' multiplex 2 \<noteq> None
      \<and> showLookup' multiplex (1, 2) = None"
    by (simp add: multiplex_fields)
  from h3 createShow_checks_and_registers [OF multiplex_inv, of 1 2]
  obtain k u where q: "createShow 1 2 multiplex = (k, u)" "k = showCounter' multiplex + 1"
    "movieToTheaters' u 1
       = Some (insert 2 (case movieToTheaters' multiplex 1 of None \<Rightarrow> {} | Some ts \<Rightarrow> ts))"
    by blast
  from q(1) have u: "u = snd (createShow 1 2 multiplex)" by simp
  from q(1,2) have d1: "fst (createShow 1 2 multiplex) = 2" by (simp add: multiplex_fields)
  from q(3) have d2: "movieToTheaters' (snd (createShow 1 2 multiplex)) 1 = Some {2, 1}"
    by (simp add: u [symmetric] multiplex_fields)
  from catalog_inv h1 c1 h2 c2 c3 c4 c5 c6 c7 multiplex_inv h3 multiplex_fields(5) d1 d2
  show ?thesis by blast
qed

text \<open>
  Claim C3. After every sequence of \<open>addMovie\<close>, \<open>addTheater\<close>, \<open>createShow\<close>, \<open>bookSeats\<close>
  and \<open>getAvailableSeats\<close> calls on a new service, every show's cached \<open>availableCount\<close>
  equals the number of \<open>false\<close> entries of its seat vector. A successful \<open>createShow\<close>
  stores a show with all \<open>TOTAL_SEATS\<close> seats free and the count at \<open>TOTAL_SEATS\<close>, and a
  booking, successful or not, takes a show with the equality to a show with the equality.
\<close>

theorem availableCount_equals_free_seats:
  "(shows' (run ops initial) i = Some sh \<longrightarrow>
      availableCount sh = freeCount (seats sh) \<and> length (seats sh) = nat TOTAL_SEATS)
   \<and> (movies' (run ops' initial) m \<noteq> None \<and> theaters' (run ops' initial) t \<noteq> None
        \<and> showLookup' (run ops' initial) (m, t) = None \<longrightarrow>
       (\<exists>sh'. shows' (snd (createShow m t (run ops' initial)))
                 (fst (createShow m t (run ops' initial))) = Some sh'
          \<and> seats sh' = replicate (nat TOTAL_SEATS) False
          \<and> availableCount sh' = TOTAL_SEATS \<and> freeCount (seats sh') = TOTAL_SEATS))
   \<and> (shows' s j = Some sh0 \<and> length (seats sh0) = nat TOTAL_SEATS
        \<and> availableCount sh0 = freeCount (seats sh0) \<longrightarrow>
       (\<exists>sh1. shows' (snd (bookSeats j ls s)) j = Some sh1
          \<and> length (seats sh1) = nat TOTAL_SEATS
          \<and> availableCount sh1 = freeCount (seats sh1)
          \<and> (\<not> fst (bookSeats j ls s) \<longrightarrow> sh1 = sh0)))"
proof (intro conjI impI)
  have inv: "service_inv (run ops initial)"
    by (rule service_inv_run [OF service_inv_initial])
  assume sh: "shows' (run ops initial) i = Some sh"
  from service_inv_showD(2) [OF inv sh]
  show "availableCount sh = freeCount (seats sh)" "length (seats sh) = nat TOTAL_SEATS"
    by (simp_all add: show_inv_def)
next
  have inv: "service_inv (run ops' initial)"
    by (rule service_inv_run [OF service_inv_initial])
  assume "movies' (run ops' initial) m \<noteq> None \<and> theaters' (run ops' initial) t \<noteq> None
        \<and> showLookup' (run ops' initial) (m, t) = None"
  then have "shows' (snd (createShow m t (run ops' initial)))
      (fst (createShow m t (run ops' initial))) = Some (newShow m t)"
    by (simp add: createShow_success [OF inv])
  moreover have "seats (newShow m t) = replicate (nat TOTAL_SEATS) False"
    "availableCount (newShow m t) = TOTAL_SEATS" "freeCount (seats (newShow m t)) = TOTAL_SEATS"
    using show_inv_newShow [of m t] by (simp_all add: newShow_def show_inv_def)
  ultimately show "\<exists>sh'. shows' (snd (createShow m t (run ops' initial)))
                 (fst (createShow m t (run ops' initial))) = Some sh'
          \<and> seats sh' = replicate (nat TOTAL_SEATS) False
          \<and> availableCount sh' = TOTAL_SEATS \<and> freeCount (seats sh') = TOTAL_SEATS"
    by blast
next
  assume a: "shows' s j = Some sh0 \<and> length (seats sh0) = nat TOTAL_SEATS
        \<and> availableCount sh0 = freeCount (seats sh0)"
  then have sh0: "shows' s j = Some sh0" and inv0: "show_inv sh0"
    by (simp_all add: show_inv_def)
  show "\<exists>sh1. shows' (snd (bookSeats j ls s)) j = Some sh1
          \<and> length (seats sh1) = nat TOTAL_SEATS
          \<and> availableCount sh1 = freeCount (seats sh1)
          \<and> (\<not> fst (bookSeats j ls s) \<longrightarrow> sh1 = sh0)"
  proof (cases "checkLabels (seats sh0) (replicate (nat TOTAL_SEATS) False) [] ls")
    case (Inl r)
    from bookSeats_rejected [OF sh0 this] a show ?thesis by simp
  next
    case (Inr tmp)
    from show_inv_commitSeats [OF inv0 this] bookSeats_accepted [OF sh0 Inr]
    show ?thesis by (simp add: show_inv_def)
  qed
qed


theorem availableCount_equals_free_seats_witness:
  "shows' (run [AddMovie ''Inception'', AddTheater ''Cineplex'', CreateShow 1 1,
                BookSeats 1 [''A1'', ''A2'']] initial) 1
     = Some (commitSeats (newShow 1 1) [0, 1])
   \<and> availableCount (commitSeats (newShow 1 1) [0, 1]) = 18
   \<and> availableCount (commitSeats (newShow 1 1) [0, 1])
       = freeCount (seats (commitSeats (newShow 1 1) [0, 1]))
   \<and> movies' (run [AddMovie ''Inception'', AddTheater ''Cineplex''] initial) 1 \<noteq> None
   \<and> theaters' (run [AddMovie ''Inception'', AddTheater ''Cineplex''] initial) 1 \<noteq> None
   \<and> showLookup' (run [AddMovie ''Inception'', AddTheater ''Cineplex''] initial) (1, 1) = None
   \<and> (\<exists>sh'. shows' (snd (createShow 1 1
                 (run [AddMovie ''Inception'', AddTheater ''Cineplex''] initial)))
               (fst (createShow 1 1
                 (run [AddMovie ''Inception'', AddTheater ''Cineplex''] initial))) = Some sh'
         \<and> availableCount sh' = TOTAL_SEATS \<and> freeCount (seats sh') = TOTAL_SEATS)
   \<and> shows' demo 1 = Some (newShow 1 1) \<and> length (seats (newShow 1 1)) = nat TOTAL_SEATS
   \<and> availableCount (newShow 1 1) = freeCount (seats (newShow 1 1))
   \<and> (\<exists>sh1. shows' (snd (bookSeats 1 [''A4''] demo)) 1 = Some sh1
         \<and> availableCount sh1 = freeCount (seats sh1))"
proof -
  let ?ops = "[AddMovie ''Inception'', AddTheater ''Cineplex'', CreateShow 1 1,
               BookSeats 1 [''A1'', ''A2'']]"
  let ?ops' = "[AddMovie ''Inception'', AddTheater ''Cineplex'']"
  let ?sh = "commitSeats (newShow 1 1) [0, 1]"
  have i1: "seatIndexFromLabel ''A1'' = 0" by code_simp
  have i2: "seatIndexFromLabel ''A2'' = 1" by code_simp
  have chk: "checkLabels (seats (newShow 1 1)) (replicate (nat TOTAL_SEATS) False) []
      [''A1'', ''A2''] = Inr [0, 1]"
    using newShow_seats(2) [of 0 1 1] newShow_seats(2) [of 1 1 1]
    by (simp add: checkLabels_fresh_iff i1 i2 TOTAL_SEATS_def)
  have "run ?ops initial = snd (bookSeats 1 [''A1'', ''A2''] demo)"
    by (simp add: demo_def)
  with bookSeats_accepted [OF demo_show chk]
  have h1: "shows' (run ?ops initial) 1 = Some ?sh" by simp
  have v: "availableCount ?sh = 18" by (simp add: newShow_def TOTAL_SEATS_def)
  have cat: "run ?ops' initial = catalog" by (simp only: catalog_def)
  have h2: "movies' (run ?ops' initial) 1 \<noteq> None \<and> theaters' (run ?ops' initial) 1 \<noteq> None
      \<and> showLookup' (run ?ops' initial) (1, 1) = None"
    unfolding cat by (simp add: catalog_fields)
  have h3: "shows' demo 1 = Some (newShow 1 1) \<and> length (seats (newShow 1 1)) = nat TOTAL_SEATS
      \<and> availableCount (newShow 1 1) = freeCount (seats (newShow 1 1))"
    using show_inv_newShow [of 1 1] by (simp add: demo_show show_inv_def)
  note t = availableCount_equals_free_seats
    [where ops = ?ops and i = 1 and sh = ?sh and ops' = ?ops' and m = 1 and t = 1
       and s = demo and j = 1 and ?sh0.0 = "newShow 1 1" and ls = "[''A4'']"]
  from t h1 have c1: "availableCount ?sh = freeCount (seats ?sh)" by blast
  from t h2 have c2: "\<exists>sh'. shows' (snd (createShow 1 1 (run ?ops' initial)))
               (fst (createShow 1 1 (run ?ops' initial))) = Some sh'
         \<and> availableCount sh' = TOTAL_SEATS \<and> freeCount (seats sh') = TOTAL_SEATS"
    by blast
  from t h3 have c3: "\<exists>sh1. shows' (snd (bookSeats 1 [''A4''] demo)) 1 = Some sh1
         \<and> availableCount sh1 = freeCount (seats sh1)"
    by blast
  from h1 v c1 h2 c2 h3 c3 show ?thesis by blast
qed

section \<open>Duplicate titles and names\<close>






































end
